theory Spec2Isabelle
  imports Main "HOL-Library.Sublist" "HOL-Library.AList"
begin

section \<open>mdtogo: Go strings as byte lists\<close>

text \<open>
  A Go \<open>string\<close> is a sequence of bytes; it is modelled as a \<open>string\<close> (a list of
  8-bit \<open>char\<close>s). The library functions the program calls are written out below the way
  the Go standard library defines them on bytes.
\<close>

definition nl :: char where
  "nl = CHR 0x0A"

definition cr :: char where
  "cr = CHR 0x0D"

definition bq :: char where
  "bq = CHR 0x60"

definition dq :: char where
  "dq = CHR 0x22"

text \<open>\<open>strings.HasPrefix(s, prefix)\<close>: \<open>len(s) >= len(prefix) && s[:len(prefix)] == prefix\<close>.\<close>

definition HasPrefix :: "string \<Rightarrow> string \<Rightarrow> bool" where
  "HasPrefix s p = (length p \<le> length s \<and> take (length p) s = p)"

text \<open>
  \<open>strings.Trim(s, cutset)\<close> for a cutset of ASCII bytes (the program only passes the
  one-byte cutset holding a newline): every leading and every trailing byte of the cutset
  is removed.
\<close>

definition TrimLeft :: "string \<Rightarrow> string \<Rightarrow> string" where
  "TrimLeft s cutset = dropWhile (\<lambda>c. c \<in> set cutset) s"

definition TrimRight :: "string \<Rightarrow> string \<Rightarrow> string" where
  "TrimRight s cutset = rev (dropWhile (\<lambda>c. c \<in> set cutset) (rev s))"

definition Trim :: "string \<Rightarrow> string \<Rightarrow> string" where
  "Trim s cutset = TrimLeft (TrimRight s cutset) cutset"

text \<open>\<open>strings.Join(elems, sep)\<close>.\<close>

fun Join :: "string list \<Rightarrow> string \<Rightarrow> string" where
  "Join [] sep = []"
| "Join [x] sep = x"
| "Join (x # y # ys) sep = x @ sep @ Join (y # ys) sep"

text \<open>
  \<open>strings.ReplaceAll(s, old, new)\<close> for a non-empty \<open>old\<close>: the non-overlapping
  occurrences of \<open>old\<close> are replaced from left to right. The program never passes an empty
  \<open>old\<close> (Go would then insert \<open>new\<close> around every rune); the model leaves \<open>s\<close> as it
  is in that case.
\<close>

function ReplaceAll :: "string \<Rightarrow> string \<Rightarrow> string \<Rightarrow> string" where
  "ReplaceAll s old new =
     (if old = [] \<or> s = [] then s
      else if HasPrefix s old then new @ ReplaceAll (drop (length old) s) old new
      else hd s # ReplaceAll (tl s) old new)"
  by pat_completeness auto
termination
  by (relation "measure (\<lambda>(s, old, new). length s)") auto

declare ReplaceAll.simps [simp del]

section \<open>bufio.Scanner with the ScanLines split function\<close>

text \<open>
  \<open>bufio.NewScanner\<close> splits with \<open>ScanLines\<close> and holds at most \<open>MaxScanTokenSize\<close>
  bytes of one token in its buffer.
\<close>

definition MaxScanTokenSize :: nat where
  "MaxScanTokenSize = 64 * 1024"

text \<open>\<open>dropCR\<close>: one trailing carriage return is removed from a line.\<close>

definition dropCR :: "string \<Rightarrow> string" where
  "dropCR data = (if data \<noteq> [] \<and> last data = cr then butlast data else data)"

text \<open>\<open>bytes.IndexByte(data, c)\<close>, with \<open>None\<close> for Go's \<open>-1\<close>.\<close>

definition IndexByte :: "string \<Rightarrow> char \<Rightarrow> nat option" where
  "IndexByte data c =
     (let i = length (takeWhile (\<lambda>x. x \<noteq> c) data)
      in if i < length data then Some i else None)"

text \<open>
  \<open>ScanLines(data, atEOF)\<close> returns how far to advance and the token, if there is one;
  \<open>None\<close> stands for the request for more data (or, at the end of the input, for no token).
\<close>

definition ScanLines :: "string \<Rightarrow> bool \<Rightarrow> (nat \<times> string) option" where
  "ScanLines data atEOF =
     (if atEOF \<and> data = [] then None
      else case IndexByte data nl of
             Some i \<Rightarrow> Some (i + 1, dropCR (take i data))
           | None \<Rightarrow> if atEOF then Some (length data, dropCR data) else None)"

text \<open>
  One call of \<open>Scanner.Scan\<close> on the unread input \<open>rest\<close>. The buffer grows up to
  \<open>MaxScanTokenSize\<close> bytes. The split function sees the end of the input only when all of
  \<open>rest\<close> is in a buffer that is not full. When the full buffer holds no token the scanner
  stops with \<open>ErrTooLong\<close> and \<open>Scan\<close> returns false, as it does at the end of the
  input; the program never looks at \<open>scanner.Err()\<close>. The result is the token
  (\<open>scanner.Text()\<close>) and the input left, or \<open>None\<close> when \<open>Scan\<close> returns false.
\<close>

definition Scan :: "string \<Rightarrow> (string \<times> string) option" where
  "Scan rest =
     (let buf = take MaxScanTokenSize rest;
          atEOF = (length rest < MaxScanTokenSize)
      in case ScanLines buf atEOF of
           None \<Rightarrow> None
         | Some (advance, token) \<Rightarrow> Some (token, drop advance rest))"

text \<open>The tokens of all successful calls of \<open>Scan\<close>, in order.\<close>

function scanAll :: "string \<Rightarrow> string list" where
  "scanAll rest = (case Scan rest of None \<Rightarrow> [] | Some (token, rest') \<Rightarrow> token # scanAll rest')"
  by pat_completeness auto
termination
  by (relation "measure length")
     (auto simp: Scan_def ScanLines_def IndexByte_def Let_def split: if_splits option.splits)

declare scanAll.simps [simp del]

section \<open>cleanUpContent\<close>

text \<open>The replacement for a backtick: \<^verbatim>\<open>` + "`" + `\<close>.\<close>

definition backtickEscape :: string where
  "backtickEscape = [bq] @ '' + '' @ [dq, bq, dq] @ '' + '' @ [bq]"

definition fence :: string where
  "fence = [bq, bq, bq]"

text \<open>
  The body of the loop over the scanned lines. The state is the pair of the local variables
  \<open>indent\<close> and \<open>lines\<close>.
\<close>

definition cleanUpLine :: "bool \<times> string list \<Rightarrow> string \<Rightarrow> bool \<times> string list" where
  "cleanUpLine st line =
     (case st of (indent, lines) \<Rightarrow>
        if HasPrefix line fence then (\<not> indent, lines)
        else let line1 = (if indent then ''  '' @ line else line);
                 line2 = ReplaceAll line1 [bq] backtickEscape
             in (indent, lines @ [line2]))"

definition cleanUpLines :: "string list \<Rightarrow> string list" where
  "cleanUpLines ls = snd (foldl cleanUpLine (False, []) ls)"

definition cleanUpContent :: "string \<Rightarrow> string" where
  "cleanUpContent text =
     [nl] @ Join (cleanUpLines (scanAll (Trim text [nl]))) [nl] @ [nl]"

section \<open>Notions used to state the properties\<close>

text \<open>
  The number of fence lines, and of lines that are emitted, among the first \<open>k\<close> scanned
  lines. A line is inside a code fence when an odd number of fence lines precedes it.
\<close>

definition fences_before :: "string list \<Rightarrow> nat \<Rightarrow> nat" where
  "fences_before ls k = length (filter (\<lambda>l. HasPrefix l fence) (take k ls))"

definition emitted_before :: "string list \<Rightarrow> nat \<Rightarrow> nat" where
  "emitted_before ls k = length (filter (\<lambda>l. \<not> HasPrefix l fence) (take k ls))"

definition emitted_line :: "string list \<Rightarrow> nat \<Rightarrow> string" where
  "emitted_line ls k =
     (if odd (fences_before ls k) then ''  '' else []) @ ReplaceAll (ls ! k) [bq] backtickEscape"

text \<open>
  A text has only escaped backticks when it can be read from left to right as escape
  sequences and bytes that are not backticks.
\<close>

function escapedOnly :: "string \<Rightarrow> bool" where
  "escapedOnly s =
     (if s = [] then True
      else if HasPrefix s backtickEscape then escapedOnly (drop (length backtickEscape) s)
      else hd s \<noteq> bq \<and> escapedOnly (tl s))"
  by pat_completeness auto
termination
  by (relation "measure length") (auto simp: backtickEscape_def)

declare escapedOnly.simps [simp del]

text \<open>
  The lines of a text in the plain sense: the pieces between its newline bytes
  (\<open>n\<close> newlines give \<open>n + 1\<close> pieces, possibly empty).
\<close>

fun lines_of :: "string \<Rightarrow> string list" where
  "lines_of [] = [[]]"
| "lines_of (c # cs) =
     (if c = nl then [] # lines_of cs
      else case lines_of cs of [] \<Rightarrow> [[c]] | l # ls \<Rightarrow> (c # l) # ls)"

section \<open>strings.TrimSpace\<close>

text \<open>
  \<open>strings.TrimSpace\<close> removes the leading and the trailing white space as
  \<open>unicode.IsSpace\<close> defines it. On the bytes of the string these are the six ASCII
  space bytes and the UTF-8 encodings of U+0085, U+00A0, U+1680, U+2000 to U+200A, U+2028,
  U+2029, U+202F, U+205F and U+3000. A byte that is not part of a well-formed encoding
  decodes to the replacement rune, which is not a space, so trimming stops there.
\<close>

definition asciiSpace :: "string list" where
  "asciiSpace = [[CHR 0x09], [CHR 0x0A], [CHR 0x0B], [CHR 0x0C], [CHR 0x0D], [CHR 0x20]]"

definition unicodeSpace :: "string list" where
  "unicodeSpace =
     [[CHR 0xC2, CHR 0x85], [CHR 0xC2, CHR 0xA0], [CHR 0xE1, CHR 0x9A, CHR 0x80],
      [CHR 0xE2, CHR 0x80, CHR 0x80], [CHR 0xE2, CHR 0x80, CHR 0x81],
      [CHR 0xE2, CHR 0x80, CHR 0x82], [CHR 0xE2, CHR 0x80, CHR 0x83],
      [CHR 0xE2, CHR 0x80, CHR 0x84], [CHR 0xE2, CHR 0x80, CHR 0x85],
      [CHR 0xE2, CHR 0x80, CHR 0x86], [CHR 0xE2, CHR 0x80, CHR 0x87],
      [CHR 0xE2, CHR 0x80, CHR 0x88], [CHR 0xE2, CHR 0x80, CHR 0x89],
      [CHR 0xE2, CHR 0x80, CHR 0x8A], [CHR 0xE2, CHR 0x80, CHR 0xA8],
      [CHR 0xE2, CHR 0x80, CHR 0xA9], [CHR 0xE2, CHR 0x80, CHR 0xAF],
      [CHR 0xE2, CHR 0x81, CHR 0x9F], [CHR 0xE3, CHR 0x80, CHR 0x80]]"

text \<open>The length of the space rune the string starts with, if it starts with one.\<close>

definition leadingSpace :: "string \<Rightarrow> nat option" where
  "leadingSpace s = map_option length (find (\<lambda>sp. HasPrefix s sp) (asciiSpace @ unicodeSpace))"

text \<open>The length of the space rune the string ends with, if it ends with one.\<close>

definition trailingSpace :: "string \<Rightarrow> nat option" where
  "trailingSpace s =
     map_option length (find (\<lambda>sp. HasPrefix (rev s) (rev sp)) (asciiSpace @ unicodeSpace))"

function trimLeftSpace :: "string \<Rightarrow> string" where
  "trimLeftSpace s =
     (case leadingSpace s of
        None \<Rightarrow> s
      | Some n \<Rightarrow> if 0 < n \<and> n \<le> length s then trimLeftSpace (drop n s) else s)"
  by pat_completeness auto
termination
  by (relation "measure length") auto

function trimRightSpace :: "string \<Rightarrow> string" where
  "trimRightSpace s =
     (case trailingSpace s of
        None \<Rightarrow> s
      | Some n \<Rightarrow> if 0 < n \<and> n \<le> length s then trimRightSpace (take (length s - n) s) else s)"
  by pat_completeness auto
termination
  by (relation "measure length") auto

declare trimLeftSpace.simps [simp del] trimRightSpace.simps [simp del]

definition TrimSpace :: "string \<Rightarrow> string" where
  "TrimSpace s = trimRightSpace (trimLeftSpace s)"

section \<open>The two regular expressions\<close>

text \<open>
  \<open>mdtogoTag\<close> is \<^verbatim>\<open><!--mdtogo:(Short|Long|Examples)-->([\s\S]*?)<!--mdtogo-->\<close> and
  \<open>mdtogoInternalTag\<close> is \<^verbatim>\<open><!--mdtogo:(Short|Long|Examples)\s+?([\s\S]*?)-->\<close>.
  Go's regexp package finds the leftmost match and, among the matches that start there,
  the one a backtracking search finds first. Both expressions are a literal, one of three
  names none of which is a prefix of another, for the second expression a lazy \<open>\s+?\<close>,
  which takes one space byte, a lazy \<open>[\s\S]*?\<close>, which takes the fewest bytes, and a
  closing literal. So a match at a position is decided from left to right without
  backtracking, and the second group ends at the first occurrence of the closing literal.
\<close>

definition fieldNames :: "string list" where
  "fieldNames = [''Short'', ''Long'', ''Examples'']"

text \<open>An alternation of literals: the first one that the text starts with, and the text left.\<close>

fun matchAlt :: "string list \<Rightarrow> string \<Rightarrow> (string \<times> string) option" where
  "matchAlt [] s = None"
| "matchAlt (a # as) s =
     (if HasPrefix s a then Some (a, drop (length a) s) else matchAlt as s)"

text \<open>
  \<open>[\s\S]*?\<close> followed by the literal \<open>lit\<close>: the bytes before the first occurrence of
  \<open>lit\<close>, and the text after that occurrence.
\<close>

fun cutAt :: "string \<Rightarrow> string \<Rightarrow> (string \<times> string) option" where
  "cutAt lit [] = (if lit = [] then Some ([], []) else None)"
| "cutAt lit (c # cs) =
     (if HasPrefix (c # cs) lit then Some ([], drop (length lit) (c # cs))
      else case cutAt lit cs of
             None \<Rightarrow> None
           | Some (content, rest) \<Rightarrow> Some (c # content, rest))"

text \<open>The class \<open>\s\<close> of Go's regexp syntax: tab, newline, form feed, carriage return, space.\<close>

definition reSpace :: "char \<Rightarrow> bool" where
  "reSpace c = (c \<in> set [CHR 0x09, CHR 0x0A, CHR 0x0C, CHR 0x0D, CHR 0x20])"

definition marker :: string where
  "marker = ''<!--mdtogo''"

text \<open>
  A match of \<open>mdtogoTag\<close> that starts at the first byte of \<open>s\<close>: the two groups and the
  text after the match.
\<close>

definition mdtogoTag :: "string \<Rightarrow> ((string \<times> string) \<times> string) option" where
  "mdtogoTag s =
     (if HasPrefix s (marker @ '':'') then
        case matchAlt fieldNames (drop (length (marker @ '':'')) s) of
          None \<Rightarrow> None
        | Some (name, s1) \<Rightarrow>
            if HasPrefix s1 ''-->'' then
              case cutAt (marker @ ''-->'') (drop 3 s1) of
                None \<Rightarrow> None
              | Some (content, rest) \<Rightarrow> Some ((name, content), rest)
            else None
      else None)"

definition mdtogoInternalTag :: "string \<Rightarrow> ((string \<times> string) \<times> string) option" where
  "mdtogoInternalTag s =
     (if HasPrefix s (marker @ '':'') then
        case matchAlt fieldNames (drop (length (marker @ '':'')) s) of
          None \<Rightarrow> None
        | Some (name, s1) \<Rightarrow>
            (case s1 of
               [] \<Rightarrow> None
             | w # s2 \<Rightarrow>
                 if reSpace w then
                   case cutAt ''-->'' s2 of
                     None \<Rightarrow> None
                   | Some (content, rest) \<Rightarrow> Some ((name, content), rest)
                 else None)
      else None)"

text \<open>
  \<open>re.FindAllStringSubmatch(value, -1)\<close>, for an expression \<open>re\<close> given by its matches at
  the first byte: the groups of the successive non-overlapping matches. The search goes on
  after the end of a match, and one byte further where there is no match. Matches of the
  two expressions are never empty; the test on the lengths only makes this visible to the
  recursion.
\<close>

function FindAllStringSubmatch ::
  "(string \<Rightarrow> ((string \<times> string) \<times> string) option) \<Rightarrow> string \<Rightarrow> (string \<times> string) list" where
  "FindAllStringSubmatch re s =
     (case re s of
        Some (groups, rest) \<Rightarrow>
          if length rest < length s then groups # FindAllStringSubmatch re rest else [groups]
      | None \<Rightarrow> (case s of [] \<Rightarrow> [] | c # cs \<Rightarrow> FindAllStringSubmatch re cs))"
  by pat_completeness auto
termination
  by (relation "measure (\<lambda>(re, s). length s)") auto

declare FindAllStringSubmatch.simps [simp del]

section \<open>doc, parse and String\<close>

record doc =
  Name :: string
  Short :: string
  Long :: string
  Examples :: string

definition emptyDoc :: doc where
  "emptyDoc = \<lparr>Name = [], Short = [], Long = [], Examples = []\<rparr>"

text \<open>The body of the loop over the matches: \<open>match[1]\<close> selects the field.\<close>

definition parseMatch :: "doc \<Rightarrow> string \<times> string \<Rightarrow> doc" where
  "parseMatch d m =
     (if fst m = ''Short'' then d\<lparr>Short := TrimSpace (snd m)\<rparr>
      else if fst m = ''Long'' then d\<lparr>Long := cleanUpContent (snd m)\<rparr>
      else if fst m = ''Examples'' then d\<lparr>Examples := cleanUpContent (snd m)\<rparr>
      else d)"

definition parseMatches :: "string \<Rightarrow> (string \<times> string) list" where
  "parseMatches v =
     FindAllStringSubmatch mdtogoTag v @ FindAllStringSubmatch mdtogoInternalTag v"

text \<open>
  \<open>parse(path, value)\<close>. The name is \<open>strings.Title\<close> of the last element of
  \<open>filepath.Dir(path)\<close> without its hyphens. \<open>strings.Title\<close> works with the Unicode
  tables; the model takes the function \<open>dirTitle\<close> from a path to the title-cased name of
  its directory as a parameter.
\<close>

definition parse :: "(string \<Rightarrow> string) \<Rightarrow> string \<Rightarrow> string \<Rightarrow> doc" where
  "parse dirTitle path v =
     (let name = dirTitle path;
          name = ReplaceAll name ''-'' [];
          d = foldl parseMatch emptyDoc (parseMatches v)
      in d\<lparr>Name := name\<rparr>)"

text \<open>\<open>doc.String\<close>: the value of \<open>parts\<close> at the return, and the result.\<close>

definition StringParts :: "doc \<Rightarrow> string list" where
  "StringParts d =
     (let parts = [];
          parts = (if Short d \<noteq> [] then parts @ [''var '' @ Name d @ ''Short = `'' @ Short d @ ''`'']
                   else parts);
          parts = (if Long d \<noteq> [] then parts @ [''var '' @ Name d @ ''Long = `'' @ Long d @ ''`'']
                   else parts);
          parts = (if Examples d \<noteq> []
                   then parts @ [''var '' @ Name d @ ''Examples = `'' @ Examples d @ ''`'']
                   else parts)
      in parts)"

definition String :: "doc \<Rightarrow> string" where
  "String d = Join (StringParts d) [nl] @ [nl]"

section \<open>Well-formed documents\<close>

text \<open>\<open>strings.Contains(s, substr)\<close>.\<close>

fun Contains :: "string \<Rightarrow> string \<Rightarrow> bool" where
  "Contains [] substr = (substr = [])"
| "Contains (c # cs) substr = (HasPrefix (c # cs) substr \<or> Contains cs substr)"

text \<open>
  A tagged region in the visible form, with its field name and its content, or in the
  hidden form, with its field name, the space byte after the name and its content.
\<close>

datatype region = Visible string string | Hidden string char string

fun renderRegion :: "region \<Rightarrow> string" where
  "renderRegion (Visible f c) = marker @ '':'' @ f @ ''-->'' @ c @ marker @ ''-->''"
| "renderRegion (Hidden f w c) = marker @ '':'' @ f @ [w] @ c @ ''-->''"

text \<open>
  A document is a sequence of regions, each after a gap of other text, and the text after
  the last region.
\<close>

fun render :: "(string \<times> region) list \<Rightarrow> string \<Rightarrow> string" where
  "render [] tail = tail"
| "render ((gap, r) # rs) tail = gap @ renderRegion r @ render rs tail"

text \<open>
  A region is well formed when its field name is one of the three names and its content
  does not contain the marker \<^verbatim>\<open><!--mdtogo\<close> (regions are not nested); the content of a
  hidden region does not contain \<^verbatim>\<open>-->\<close> either, and the byte after its name is a space
  byte of the expression. A document is well formed when its regions are and the text
  outside them does not contain the marker.
\<close>

fun wfRegion :: "region \<Rightarrow> bool" where
  "wfRegion (Visible f c) = (f \<in> set fieldNames \<and> \<not> Contains c marker)"
| "wfRegion (Hidden f w c) =
     (f \<in> set fieldNames \<and> reSpace w \<and> \<not> Contains c marker \<and> \<not> Contains c ''-->'')"

definition wfDoc :: "(string \<times> region) list \<Rightarrow> string \<Rightarrow> bool" where
  "wfDoc rs tail =
     (list_all (\<lambda>gr. \<not> Contains (fst gr) marker \<and> wfRegion (snd gr)) rs \<and> \<not> Contains tail marker)"

fun visibleGroups :: "(string \<times> region) list \<Rightarrow> (string \<times> string) list" where
  "visibleGroups [] = []"
| "visibleGroups ((gap, Visible f c) # rs) = (f, c) # visibleGroups rs"
| "visibleGroups ((gap, Hidden f w c) # rs) = visibleGroups rs"

fun hiddenGroups :: "(string \<times> region) list \<Rightarrow> (string \<times> string) list" where
  "hiddenGroups [] = []"
| "hiddenGroups ((gap, Visible f c) # rs) = hiddenGroups rs"
| "hiddenGroups ((gap, Hidden f w c) # rs) = (f, c) # hiddenGroups rs"

text \<open>The content of the last match for a field name in a list of matches.\<close>

definition lastContent :: "string \<Rightarrow> (string \<times> string) list \<Rightarrow> string option" where
  "lastContent f ms =
     (let found = filter (\<lambda>m. fst m = f) ms
      in if found = [] then None else Some (snd (last found)))"

fun regionField :: "region \<Rightarrow> string" where
  "regionField (Visible f c) = f"
| "regionField (Hidden f w c) = f"

fun isHidden :: "region \<Rightarrow> bool" where
  "isHidden (Visible f c) = False"
| "isHidden (Hidden f w c) = True"

text \<open>The declaration that \<open>doc.String\<close> formats for a field.\<close>

definition varDecl :: "string \<Rightarrow> string \<Rightarrow> string \<Rightarrow> string" where
  "varDecl name sfx val = ''var '' @ name @ sfx @ '' = `'' @ val @ ''`''"

section \<open>path/filepath on a system with the separator \<open>/\<close>\<close>

definition sep :: char where
  "sep = CHR ''/''"

text \<open>The part of a path after its last separator, and the part up to and with it.\<close>

definition lastElem :: "string \<Rightarrow> string" where
  "lastElem path = rev (takeWhile (\<lambda>c. c \<noteq> sep) (rev path))"

definition uptoLastSep :: "string \<Rightarrow> string" where
  "uptoLastSep path = rev (dropWhile (\<lambda>c. c \<noteq> sep) (rev path))"

text \<open>\<open>filepath.Split\<close>: the directory part, with its final separator, and the file part.\<close>

definition Split :: "string \<Rightarrow> string \<times> string" where
  "Split path = (uptoLastSep path, lastElem path)"

text \<open>\<open>filepath.Ext\<close>: from the last dot of the last element on, or empty.\<close>

definition Ext :: "string \<Rightarrow> string" where
  "Ext path =
     (let e = lastElem path
      in if CHR ''.'' \<in> set e then CHR ''.'' # rev (takeWhile (\<lambda>c. c \<noteq> CHR ''.'') (rev e))
         else [])"

text \<open>The elements of a path: the pieces between its separators.\<close>

fun pathElems :: "string \<Rightarrow> string list" where
  "pathElems [] = [[]]"
| "pathElems (c # cs) =
     (if c = sep then [] # pathElems cs
      else case pathElems cs of [] \<Rightarrow> [[c]] | e # es \<Rightarrow> (c # e) # es)"

text \<open>
  \<open>filepath.Clean\<close> reads the elements from left to right and keeps the elements written
  so far: an empty element and \<open>.\<close> are dropped; \<open>..\<close> removes the last element written
  unless there is none or it is a \<open>..\<close> itself, in which case it is written for a relative
  path and dropped for a rooted one.
\<close>

fun cleanElems :: "bool \<Rightarrow> string list \<Rightarrow> string list \<Rightarrow> string list" where
  "cleanElems rooted out [] = out"
| "cleanElems rooted out (e # es) =
     (if e = [] \<or> e = ''.'' then cleanElems rooted out es
      else if e = ''..'' then
        (if out \<noteq> [] \<and> last out \<noteq> ''..'' then cleanElems rooted (butlast out) es
         else if \<not> rooted then cleanElems rooted (out @ [''..'']) es
         else cleanElems rooted out es)
      else cleanElems rooted (out @ [e]) es)"

definition Clean :: "string \<Rightarrow> string" where
  "Clean path =
     (if path = [] then ''.''
      else let rooted = (hd path = sep);
               out = (if rooted then [sep] else []) @ Join (cleanElems rooted [] (pathElems path)) [sep]
           in if out = [] then ''.'' else out)"

text \<open>\<open>filepath.Join\<close>: the elements from the first non-empty one on, joined and cleaned.\<close>

definition filepath_Join :: "string list \<Rightarrow> string" where
  "filepath_Join elem =
     (case dropWhile (\<lambda>e. e = []) elem of [] \<Rightarrow> [] | es \<Rightarrow> Clean (Join es [sep]))"

text \<open>\<open>filepath.Base\<close>: the last element, after the trailing separators are removed.\<close>

definition Base :: "string \<Rightarrow> string" where
  "Base path =
     (if path = [] then ''.''
      else let p = rev (dropWhile (\<lambda>c. c = sep) (rev path));
               p = lastElem p
           in if p = [] then [sep] else p)"

text \<open>\<open>filepath.Dir\<close>: the cleaned directory part.\<close>

definition Dir :: "string \<Rightarrow> string" where
  "Dir path = Clean (uptoLastSep path)"

section \<open>The operating system\<close>

text \<open>
  The program reaches the file system through six calls. Their behaviour is a parameter:
  a record of functions over a type \<open>'fs\<close> of file-system states. An error is its
  message. \<open>os_Walk\<close> gives the visits that \<open>filepath.Walk\<close> makes while the function it
  calls returns no error: the path and either the error passed for it or \<open>info.Name()\<close>.
  \<open>os_Stat\<close> tells whether \<open>os.Stat\<close> returns no error; \<open>os_Mkdir\<close> gives the state after
  \<open>os.Mkdir\<close>, whose own result the program drops. \<open>strings_Title\<close>, which works with
  the Unicode tables, is a parameter as well.
\<close>

record 'fs os =
  os_Walk :: "'fs \<Rightarrow> string \<Rightarrow> (string \<times> (string + string)) list"
  os_ReadDir :: "'fs \<Rightarrow> string \<Rightarrow> string + string list"
  os_ReadFile :: "'fs \<Rightarrow> string \<Rightarrow> string + string"
  os_Stat :: "'fs \<Rightarrow> string \<Rightarrow> bool"
  os_Mkdir :: "'fs \<Rightarrow> string \<Rightarrow> 'fs"
  os_WriteFile :: "'fs \<Rightarrow> string \<Rightarrow> string \<Rightarrow> string + 'fs"
  strings_Title :: "string \<Rightarrow> string"

datatype call =
  CallWalk string | CallReadDir string | CallReadFile string
  | CallStat string | CallMkdir string | CallWriteFile string string

text \<open>
  What a run leaves behind: the file-system state, the calls made in order, and the text
  written to standard error.
\<close>

record 'fs world =
  files :: 'fs
  calls :: "call list"
  errOut :: string

definition called :: "call \<Rightarrow> 'fs world \<Rightarrow> 'fs world" where
  "called c w = w\<lparr>calls := calls w @ [c]\<rparr>"

definition fail :: "string \<Rightarrow> 'fs world \<Rightarrow> nat \<times> 'fs world" where
  "fail msg w = (1, w\<lparr>errOut := errOut w @ msg\<rparr>)"

section \<open>readFiles and main\<close>

text \<open>The function that readFiles passes to \<open>filepath.Walk\<close>, run over the visits.\<close>

fun walkFiles :: "(string \<times> (string + string)) list \<Rightarrow> string list \<Rightarrow> string + string list" where
  "walkFiles [] filePaths = Inr filePaths"
| "walkFiles ((path, Inl err) # visits) filePaths = Inl err"
| "walkFiles ((path, Inr name) # visits) filePaths =
     walkFiles visits (if Ext name = ''.md'' then filePaths @ [path] else filePaths)"

definition readFiles :: "'fs os \<Rightarrow> 'fs \<Rightarrow> bool \<Rightarrow> string \<Rightarrow> string + string list" where
  "readFiles os fs recursive source =
     (if recursive then walkFiles (os_Walk os fs source) []
      else case os_ReadDir os fs source of
             Inl err \<Rightarrow> Inl err
           | Inr names \<Rightarrow>
               Inr (map (\<lambda>name. filepath_Join [source, name])
                      (filter (\<lambda>name. Ext name = ''.md'') names)))"

text \<open>The name that parse derives from a path, before the hyphens are removed.\<close>

definition dirTitle :: "'fs os \<Rightarrow> string \<Rightarrow> string" where
  "dirTitle os path = strings_Title os (snd (Split (Dir path)))"

text \<open>The loop over the arguments, on the variables \<open>recursive\<close> and \<open>licenseFile\<close>.\<close>

definition parseFlag :: "bool \<times> string \<Rightarrow> string \<Rightarrow> bool \<times> string" where
  "parseFlag st a =
     (case st of (recursive, licenseFile) \<Rightarrow>
        (if a = ''--recursive=true'' then True else recursive,
         if HasPrefix a ''--license='' then ReplaceAll a ''--license='' [] else licenseFile))"

text \<open>The loop over the files: it stops at the first file that cannot be read.\<close>

fun readDocs :: "'fs os \<Rightarrow> string list \<Rightarrow> doc list \<Rightarrow> 'fs world \<Rightarrow> (string + doc list) \<times> 'fs world" where
  "readDocs os [] docs w = (Inr docs, w)"
| "readDocs os (path # paths) docs w =
     (case os_ReadFile os (files w) path of
        Inl err \<Rightarrow> (Inl err, called (CallReadFile path) w)
      | Inr b \<Rightarrow> readDocs os paths (docs @ [parse (dirTitle os) path b]) (called (CallReadFile path) w))"

definition usage :: string where
  "usage = ''Usage: mdtogo SOURCE_MD_DIR/ DEST_GO_DIR/'' @ [nl]"

definition defaultLicense :: string where
  "defaultLicense =
     ''// Copyright 2019 The Kubernetes Authors.'' @ [nl] @ ''// SPDX-License-Identifier: Apache-2.0''"

definition generatedHeader :: "string \<Rightarrow> string" where
  "generatedHeader dest =
     [nl] @ ''// Code generated by '' @ [dq] @ ''mdtogo'' @ [dq] @ ''; DO NOT EDIT.'' @ [nl] @
     ''package '' @ Base dest @ [nl]"

text \<open>The switch on \<open>licenseFile\<close>.\<close>

definition readLicense :: "'fs os \<Rightarrow> string \<Rightarrow> 'fs world \<Rightarrow> (string + string) \<times> 'fs world" where
  "readLicense os licenseFile w =
     (if licenseFile = [] then (Inr defaultLicense, w)
      else if licenseFile = ''none'' then (Inr [], w)
      else (os_ReadFile os (files w) licenseFile, called (CallReadFile licenseFile) w))"

text \<open>The end of main: the directory is made if \<open>os.Stat\<close> fails, and the file is written.\<close>

definition writeDocs :: "'fs os \<Rightarrow> string \<Rightarrow> string list \<Rightarrow> 'fs world \<Rightarrow> nat \<times> 'fs world" where
  "writeDocs os dest out w =
     (let w = called (CallStat dest) w;
          w = (if \<not> os_Stat os (files w) dest
               then (called (CallMkdir dest) w)\<lparr>files := os_Mkdir os (files w) dest\<rparr>
               else w);
          joined = Join out [nl];
          path = filepath_Join [dest, ''docs.go''];
          w = called (CallWriteFile path joined) w
      in case os_WriteFile os (files w) path joined of
           Inl err \<Rightarrow> fail (err @ [nl]) w
         | Inr fs' \<Rightarrow> (0, w\<lparr>files := fs'\<rparr>))"

text \<open>
  \<open>main\<close>, for the arguments \<open>os.Args\<close> and a file-system state: the exit code and what
  the run leaves behind.
\<close>

definition main :: "'fs os \<Rightarrow> string list \<Rightarrow> 'fs \<Rightarrow> nat \<times> 'fs world" where
  "main os args fs =
     (let w = \<lparr>files = fs, calls = [], errOut = []\<rparr>;
          (recursive, licenseFile) = foldl parseFlag (False, []) args
      in if length args < 3 then fail usage w
         else
           let source = args ! 1;
               dest = args ! 2;
               w = called (if recursive then CallWalk source else CallReadDir source) w
           in case readFiles os fs recursive source of
                Inl err \<Rightarrow> fail (err @ [nl]) w
              | Inr paths \<Rightarrow>
                  (case readDocs os paths [] w of
                     (Inl err, w) \<Rightarrow> fail (err @ [nl]) w
                   | (Inr docs, w) \<Rightarrow>
                       (case readLicense os licenseFile w of
                          (Inl err, w) \<Rightarrow> fail (err @ [nl]) w
                        | (Inr license, w) \<Rightarrow>
                            writeDocs os dest
                              ([license, generatedHeader dest] @ map String docs) w)))"

section \<open>A small file system\<close>

text \<open>
  A file-system state to run the program on: the directories and the regular files with
  their contents, under the names the program uses for them, in the order in which
  \<open>ReadDir\<close> and \<open>Walk\<close> report them. A directory can be made, and a file written, where
  the parent directory exists; the working directory, whose name is empty, always does.
\<close>

record tinyfs =
  dirs :: "string list"
  regs :: "(string \<times> string) list"

definition parent :: "string \<Rightarrow> string" where
  "parent path = butlast (uptoLastSep path)"

definition tinyExists :: "tinyfs \<Rightarrow> string \<Rightarrow> bool" where
  "tinyExists fs path = (path \<in> set (dirs fs) \<or> path \<in> set (map fst (regs fs)))"

definition tinyHasDir :: "tinyfs \<Rightarrow> string \<Rightarrow> bool" where
  "tinyHasDir fs path = (path = [] \<or> path \<in> set (dirs fs))"

definition noSuchFile :: "string \<Rightarrow> string \<Rightarrow> string" where
  "noSuchFile op path = op @ '' '' @ path @ '': no such file or directory''"

text \<open>
  \<open>strings.Title\<close> on ASCII text: a lower-case letter becomes upper case where it starts
  the text or follows a byte that is not a letter, a digit or an underscore.
\<close>

definition asciiLower :: string where
  "asciiLower = ''abcdefghijklmnopqrstuvwxyz''"

definition asciiWord :: string where
  "asciiWord = asciiLower @ ''ABCDEFGHIJKLMNOPQRSTUVWXYZ'' @ ''0123456789'' @ ''_''"

definition asciiSeparator :: "char \<Rightarrow> bool" where
  "asciiSeparator c = ((of_char c :: nat) < 128 \<and> c \<notin> set asciiWord)"

fun titleFrom :: "char \<Rightarrow> string \<Rightarrow> string" where
  "titleFrom prev [] = []"
| "titleFrom prev (c # cs) =
     (if asciiSeparator prev \<and> c \<in> set asciiLower
      then char_of (of_char c - (32::nat)) else c) # titleFrom c cs"

definition tinyOs :: "tinyfs os" where
  "tinyOs =
     \<lparr>os_Walk = (\<lambda>fs root.
         if tinyExists fs root
         then (root, Inr (lastElem root)) #
              map (\<lambda>p. (p, Inr (lastElem p)))
                (filter (\<lambda>p. HasPrefix p (root @ [sep])) (dirs fs @ map fst (regs fs)))
         else [(root, Inl (noSuchFile ''lstat'' root))]),
      os_ReadDir = (\<lambda>fs path.
         if path \<in> set (dirs fs)
         then Inr (map lastElem (filter (\<lambda>p. parent p = path) (dirs fs @ map fst (regs fs))))
         else Inl (noSuchFile ''open'' path)),
      os_ReadFile = (\<lambda>fs path.
         case map_of (regs fs) path of
           Some b \<Rightarrow> Inr b
         | None \<Rightarrow> Inl (noSuchFile ''open'' path)),
      os_Stat = tinyExists,
      os_Mkdir = (\<lambda>fs path.
         if \<not> tinyExists fs path \<and> tinyHasDir fs (parent path)
         then fs\<lparr>dirs := dirs fs @ [path]\<rparr> else fs),
      os_WriteFile = (\<lambda>fs path b.
         if path \<notin> set (dirs fs) \<and> tinyHasDir fs (parent path)
         then Inr (fs\<lparr>regs := AList.update path b (regs fs)\<rparr>)
         else Inl (noSuchFile ''open'' path)),
      strings_Title = titleFrom CHR '' ''\<rparr>"

section \<open>Library functions: basic facts\<close>

lemma ReplaceAll_Nil [simp]: "ReplaceAll [] old new = []"
  by (simp add: ReplaceAll.simps)

lemma HasPrefix_single: "HasPrefix (c # cs) [x] = (c = x)"
  by (auto simp: HasPrefix_def)

lemma ReplaceAll_Cons_single:
  "ReplaceAll (c # cs) [x] new = (if c = x then new else [c]) @ ReplaceAll cs [x] new"
  by (subst ReplaceAll.simps) (simp add: HasPrefix_single)

lemma ReplaceAll_single_concat:
  "ReplaceAll s [x] new = concat (map (\<lambda>c. if c = x then new else [c]) s)"
  by (induction s) (simp_all add: ReplaceAll_Cons_single)

lemma ReplaceAll_absent: "x \<notin> set s \<Longrightarrow> ReplaceAll s [x] new = s"
  by (induction s) (auto simp: ReplaceAll_Cons_single)

lemma ReplaceAll_append_single:
  "ReplaceAll (a @ b) [x] new = ReplaceAll a [x] new @ ReplaceAll b [x] new"
  by (simp add: ReplaceAll_single_concat)

lemma scanAll_Nil [simp]: "scanAll [] = []"
  by (subst scanAll.simps) (simp add: Scan_def ScanLines_def MaxScanTokenSize_def)

lemma takeWhile_line: "nl \<notin> set l \<Longrightarrow> takeWhile (\<lambda>x. x \<noteq> nl) (l @ nl # r) = l"
  by (induction l) auto

lemma takeWhile_all: "nl \<notin> set l \<Longrightarrow> takeWhile (\<lambda>x. x \<noteq> nl) l = l"
  by (induction l) auto

lemma Scan_line:
  assumes "nl \<notin> set l" "length l < MaxScanTokenSize"
  shows "Scan (l @ nl # rest) = Some (dropCR l, rest)"
proof -
  let ?buf = "take MaxScanTokenSize (l @ nl # rest)"
  have buf: "?buf = l @ nl # take (MaxScanTokenSize - Suc (length l)) rest"
    using assms(2) by (simp add: take_Cons')
  have "IndexByte ?buf nl = Some (length l)"
    unfolding buf IndexByte_def using assms(1) by (simp add: takeWhile_line)
  moreover have "take (length l) ?buf = l"
    unfolding buf by simp
  moreover have "?buf \<noteq> []"
    unfolding buf by simp
  ultimately show ?thesis
    by (simp add: Scan_def ScanLines_def Let_def)
qed

lemma Scan_last:
  assumes "nl \<notin> set l" "l \<noteq> []" "length l < MaxScanTokenSize"
  shows "Scan l = Some (dropCR l, [])"
proof -
  have "IndexByte l nl = None"
    using assms(1) by (simp add: IndexByte_def takeWhile_all)
  then show ?thesis
    using assms(2,3) by (simp add: Scan_def ScanLines_def Let_def)
qed

lemma Scan_too_long:
  assumes "nl \<notin> set (take MaxScanTokenSize rest)" "MaxScanTokenSize \<le> length rest"
  shows "Scan rest = None"
proof -
  have "IndexByte (take MaxScanTokenSize rest) nl = None"
    using assms(1) by (simp add: IndexByte_def takeWhile_all Let_def)
  then show ?thesis
    using assms(2) by (simp add: Scan_def ScanLines_def Let_def)
qed

lemma scanAll_line:
  "nl \<notin> set l \<Longrightarrow> length l < MaxScanTokenSize \<Longrightarrow>
   scanAll (l @ nl # rest) = dropCR l # scanAll rest"
  by (subst scanAll.simps) (simp add: Scan_line)

lemma scanAll_last:
  "nl \<notin> set l \<Longrightarrow> l \<noteq> [] \<Longrightarrow> length l < MaxScanTokenSize \<Longrightarrow> scanAll l = [dropCR l]"
  by (subst scanAll.simps) (simp add: Scan_last)

lemma scanAll_too_long:
  "nl \<notin> set (take MaxScanTokenSize rest) \<Longrightarrow> MaxScanTokenSize \<le> length rest \<Longrightarrow>
   scanAll rest = []"
  by (subst scanAll.simps) (simp add: Scan_too_long)

lemmas eval_defs = scanAll.simps Scan_def ScanLines_def IndexByte_def MaxScanTokenSize_def
  dropCR_def Trim_def TrimLeft_def TrimRight_def HasPrefix_def cleanUpContent_def
  cleanUpLines_def cleanUpLine_def ReplaceAll.simps Let_def


section \<open>The loop of cleanUpContent\<close>

lemma cleanUpLine_fence: "HasPrefix l fence \<Longrightarrow> cleanUpLine (i, out) l = (\<not> i, out)"
  by (simp add: cleanUpLine_def)

lemma cleanUpLine_other:
  "\<not> HasPrefix l fence \<Longrightarrow>
   cleanUpLine (i, out) l = (i, out @ [(if i then ''  '' else []) @ ReplaceAll l [bq] backtickEscape])"
  by (simp add: cleanUpLine_def Let_def ReplaceAll_Cons_single bq_def)

lemma cleanUp_invariant:
  "fst (foldl cleanUpLine (False, []) ls) = odd (fences_before ls (length ls)) \<and>
   length (snd (foldl cleanUpLine (False, []) ls)) = emitted_before ls (length ls) \<and>
   (\<forall>k < length ls. \<not> HasPrefix (ls ! k) fence \<longrightarrow>
      snd (foldl cleanUpLine (False, []) ls) ! emitted_before ls k = emitted_line ls k)"
proof (induction ls rule: rev_induct)
  case Nil
  show ?case by (simp add: fences_before_def emitted_before_def)
next
  case (snoc l ls)
  obtain i out where st: "foldl cleanUpLine (False, []) ls = (i, out)"
    by (cases "foldl cleanUpLine (False, []) ls")
  from snoc st have i: "i = odd (fences_before ls (length ls))"
    and len: "length out = emitted_before ls (length ls)"
    and nth: "\<And>k. k < length ls \<Longrightarrow> \<not> HasPrefix (ls ! k) fence \<Longrightarrow>
                out ! emitted_before ls k = emitted_line ls k"
    by simp_all
  have fb: "\<And>k. k \<le> length ls \<Longrightarrow> fences_before (ls @ [l]) k = fences_before ls k"
    by (simp add: fences_before_def)
  have eb: "\<And>k. k \<le> length ls \<Longrightarrow> emitted_before (ls @ [l]) k = emitted_before ls k"
    by (simp add: emitted_before_def)
  have el: "\<And>k. k < length ls \<Longrightarrow> emitted_line (ls @ [l]) k = emitted_line ls k"
    by (simp add: emitted_line_def fb nth_append)
  have eb_lt: "\<And>k. k < length ls \<Longrightarrow> \<not> HasPrefix (ls ! k) fence \<Longrightarrow>
                 emitted_before ls k < length out"
  proof -
    fix k assume k: "k < length ls" and nf: "\<not> HasPrefix (ls ! k) fence"
    have "take (Suc k) ls = take k ls @ [ls ! k]"
      using k by (simp add: take_Suc_conv_app_nth)
    then have "emitted_before ls (Suc k) = Suc (emitted_before ls k)"
      using nf by (simp add: emitted_before_def)
    moreover have "emitted_before ls (Suc k) \<le> emitted_before ls (length ls)"
    proof -
      have "take (length ls) ls = take (Suc k) ls @ drop (Suc k) ls"
        by simp
      then show ?thesis
        unfolding emitted_before_def by (metis filter_append length_append le_add1)
    qed
    ultimately show "emitted_before ls k < length out"
      using len by simp
  qed
  show ?case
  proof (cases "HasPrefix l fence")
    case True
    then have step: "foldl cleanUpLine (False, []) (ls @ [l]) = (\<not> i, out)"
      by (simp add: st cleanUpLine_fence)
    have "fences_before (ls @ [l]) (length (ls @ [l])) = Suc (fences_before ls (length ls))"
      using True by (simp add: fences_before_def)
    moreover have "emitted_before (ls @ [l]) (length (ls @ [l])) = emitted_before ls (length ls)"
      using True by (simp add: emitted_before_def)
    ultimately show ?thesis
      unfolding step using True i len nth
      by (auto simp: eb el nth_append less_Suc_eq)
  next
    case False
    then have step: "foldl cleanUpLine (False, []) (ls @ [l]) =
        (i, out @ [(if i then ''  '' else []) @ ReplaceAll l [bq] backtickEscape])"
      by (simp add: st cleanUpLine_other)
    have f: "fences_before (ls @ [l]) (Suc (length ls)) = fences_before ls (length ls)"
      using False by (simp add: fences_before_def)
    have e: "emitted_before (ls @ [l]) (Suc (length ls)) = Suc (emitted_before ls (length ls))"
      using False by (simp add: emitted_before_def)
    have last: "emitted_line (ls @ [l]) (length ls) =
        (if i then ''  '' else []) @ ReplaceAll l [bq] backtickEscape"
      by (simp add: emitted_line_def fb i)
    show ?thesis
      unfolding step using False i len nth eb_lt
      by (auto simp: f e eb el last nth_append less_Suc_eq)
  qed
qed



section \<open>Backtick escaping\<close>

lemma escapedOnly_Nil [simp]: "escapedOnly []"
  by (simp add: escapedOnly.simps)

lemma HasPrefix_append_same: "HasPrefix (p @ s) p"
  by (simp add: HasPrefix_def)

lemma backtickEscape_nonempty: "backtickEscape \<noteq> []"
  by (simp add: backtickEscape_def)

lemma space_not_bq [simp]: "CHR '' '' \<noteq> bq" "nl \<noteq> bq"
  by (simp_all add: bq_def nl_def)

lemma escapedOnly_escape: "escapedOnly (backtickEscape @ s) = escapedOnly s"
  by (subst escapedOnly.simps) (simp add: HasPrefix_append_same backtickEscape_nonempty)

lemma HasPrefix_escape_hd: "HasPrefix (c # s) backtickEscape \<Longrightarrow> c = bq"
  by (simp add: HasPrefix_def backtickEscape_def)

lemma escapedOnly_other: "c \<noteq> bq \<Longrightarrow> escapedOnly (c # s) = escapedOnly s"
  by (subst escapedOnly.simps) (auto dest: HasPrefix_escape_hd)

lemma escapedOnly_append: "escapedOnly a \<Longrightarrow> escapedOnly b \<Longrightarrow> escapedOnly (a @ b)"
proof (induction a rule: escapedOnly.induct)
  case (1 s)
  show ?case
  proof (cases "s = []")
    case True
    with 1 show ?thesis by simp
  next
    case ne: False
    show ?thesis
    proof (cases "HasPrefix s backtickEscape")
      case True
      then have s: "s = backtickEscape @ drop (length backtickEscape) s"
        by (metis HasPrefix_def append_take_drop_id)
      from "1.prems"(1) True ne have "escapedOnly (drop (length backtickEscape) s)"
        by (subst (asm) escapedOnly.simps) simp
      with 1 ne True have "escapedOnly (drop (length backtickEscape) s @ b)"
        by blast
      then have "escapedOnly (backtickEscape @ drop (length backtickEscape) s @ b)"
        by (simp add: escapedOnly_escape)
      with s show ?thesis
        by (metis append.assoc)
    next
      case False
      from "1.prems"(1) False ne have h: "hd s \<noteq> bq" and t: "escapedOnly (tl s)"
        by (subst (asm) escapedOnly.simps, simp)+
      with 1 ne False have "escapedOnly (tl s @ b)"
        by blast
      with h have "escapedOnly (hd s # tl s @ b)"
        by (simp add: escapedOnly_other)
      with ne show ?thesis
        by (metis append_Cons list.collapse)
    qed
  qed
qed

lemma escapedOnly_free: "bq \<notin> set s \<Longrightarrow> escapedOnly s"
  by (induction s) (auto simp: escapedOnly_other)

lemma escapedOnly_ReplaceAll: "escapedOnly (ReplaceAll s [bq] backtickEscape)"
  by (induction s) (auto simp: ReplaceAll_Cons_single escapedOnly_escape escapedOnly_other)


lemma cleanUpLine_escapedOnly:
  "\<forall>l \<in> set (snd st). escapedOnly l \<Longrightarrow> \<forall>l \<in> set (snd (cleanUpLine st line)). escapedOnly l"
  by (cases st; cases "HasPrefix line fence")
     (auto simp: cleanUpLine_fence cleanUpLine_other escapedOnly_ReplaceAll escapedOnly_other)

lemma foldl_cleanUpLine_escapedOnly:
  "\<forall>l \<in> set (snd st). escapedOnly l \<Longrightarrow>
   \<forall>l \<in> set (snd (foldl cleanUpLine st ls)). escapedOnly l"
proof (induction ls arbitrary: st)
  case Nil
  then show ?case by simp
next
  case (Cons a ls)
  from Cons.IH [OF cleanUpLine_escapedOnly [OF Cons.prems]] show ?case by simp
qed

lemma escapedOnly_tiling:
  "escapedOnly s \<longleftrightarrow> (\<exists>ps. s = concat ps \<and> (\<forall>p \<in> set ps. p = backtickEscape \<or> bq \<notin> set p))"
proof
  show "escapedOnly s \<Longrightarrow> \<exists>ps. s = concat ps \<and> (\<forall>p \<in> set ps. p = backtickEscape \<or> bq \<notin> set p)"
  proof (induction s rule: escapedOnly.induct)
    case (1 s)
    show ?case
    proof (cases "s = []")
      case True
      then have "s = concat []" by simp
      then show ?thesis by (metis empty_iff list.set(1))
    next
      case ne: False
      show ?thesis
      proof (cases "HasPrefix s backtickEscape")
        case True
        then have s: "s = backtickEscape @ drop (length backtickEscape) s"
          by (metis HasPrefix_def append_take_drop_id)
        from "1.prems" True ne have "escapedOnly (drop (length backtickEscape) s)"
          by (subst (asm) escapedOnly.simps) simp
        with 1 ne True obtain ps where ps: "drop (length backtickEscape) s = concat ps"
            "\<forall>p \<in> set ps. p = backtickEscape \<or> bq \<notin> set p"
          by blast
        have "s = concat (backtickEscape # ps)"
          using s ps(1) by simp
        moreover have "\<forall>p \<in> set (backtickEscape # ps). p = backtickEscape \<or> bq \<notin> set p"
          using ps(2) by simp
        ultimately show ?thesis by blast
      next
        case False
        from "1.prems" False ne have h: "hd s \<noteq> bq" and t: "escapedOnly (tl s)"
          by (subst (asm) escapedOnly.simps, simp)+
        with 1 ne False obtain ps where ps: "tl s = concat ps"
            "\<forall>p \<in> set ps. p = backtickEscape \<or> bq \<notin> set p"
          by blast
        have "s = concat ([hd s] # ps)"
          using ne ps(1) by (cases s) simp_all
        moreover have "\<forall>p \<in> set ([hd s] # ps). p = backtickEscape \<or> bq \<notin> set p"
          using ps(2) h by simp
        ultimately show ?thesis by blast
      qed
    qed
  qed
next
  assume "\<exists>ps. s = concat ps \<and> (\<forall>p \<in> set ps. p = backtickEscape \<or> bq \<notin> set p)"
  then obtain ps where "s = concat ps" "\<forall>p \<in> set ps. p = backtickEscape \<or> bq \<notin> set p"
    by blast
  then show "escapedOnly s"
  proof (induction ps arbitrary: s)
    case Nil
    then show ?case by simp
  next
    case (Cons p ps)
    then have "escapedOnly (concat ps)" by simp
    moreover have "escapedOnly p"
      using Cons.prems(2) escapedOnly_escape [of "[]"] escapedOnly_free by auto
    ultimately show ?case
      using Cons.prems(1) by (simp add: escapedOnly_append)
  qed
qed

section \<open>Fence lines\<close>



section \<open>Trimming and plain text\<close>

lemma lines_of_nonempty [simp]: "lines_of s \<noteq> []"
  by (induction s) (auto split: list.splits)

lemma Join_lines_of: "Join (lines_of s) [nl] = s"
proof (induction s)
  case Nil
  show ?case by simp
next
  case (Cons c cs)
  obtain l ls where l: "lines_of cs = l # ls"
    by (cases "lines_of cs") simp_all
  show ?case
    using Cons l by (cases ls) auto
qed

lemma lines_of_no_nl: "l \<in> set (lines_of s) \<Longrightarrow> nl \<notin> set l"
  by (induction s arbitrary: l) (auto split: if_splits list.splits)

lemma lines_of_mem: "l \<in> set (lines_of s) \<Longrightarrow> x \<in> set l \<Longrightarrow> x \<in> set s"
proof (induction s arbitrary: l)
  case Nil
  then show ?case by simp
next
  case (Cons c cs)
  obtain l' ls where l': "lines_of cs = l' # ls"
    by (cases "lines_of cs") simp_all
  show ?case
  proof (cases "c = nl")
    case True
    with Cons.prems have "l = [] \<or> l \<in> set (lines_of cs)" by simp
    with Cons show ?thesis by auto
  next
    case False
    with Cons.prems l' have "l = c # l' \<or> l \<in> set ls" by simp
    then show ?thesis
    proof
      assume "l = c # l'"
      with Cons.prems(2) have "x = c \<or> x \<in> set l'" by simp
      with Cons.IH [of l'] l' show ?thesis by auto
    next
      assume "l \<in> set ls"
      with Cons.IH [of l] Cons.prems(2) l' show ?thesis by simp
    qed
  qed
qed

lemma lines_of_sub: "l \<in> set (lines_of s) \<Longrightarrow> set l \<subseteq> set s"
  using lines_of_mem by blast

lemma last_lines_of: "last (lines_of s) = [] \<longleftrightarrow> s = [] \<or> last s = nl"
proof (induction s)
  case Nil
  show ?case by simp
next
  case (Cons c cs)
  obtain l ls where l: "lines_of cs = l # ls"
    by (cases "lines_of cs") simp_all
  show ?case
    using Cons l Join_lines_of [of cs] by (cases ls) auto
qed

lemma lines_of_snoc_nl: "lines_of (s @ [nl]) = lines_of s @ [[]]"
  by (induction s) (auto split: list.splits)

lemma scanAll_Join:
  "\<forall>l \<in> set L. nl \<notin> set l \<and> length l < MaxScanTokenSize \<Longrightarrow> L \<noteq> [] \<Longrightarrow> last L \<noteq> [] \<Longrightarrow>
   scanAll (Join L [nl]) = map dropCR L"
proof (induction L "[nl]" rule: Join.induct)
  case 1
  then show ?case by simp
next
  case (2 x)
  then show ?case by (simp add: scanAll_last)
next
  case (3 x y ys)
  then show ?case by (simp add: scanAll_line)
qed

lemma scanAll_lines_of:
  assumes "\<forall>l \<in> set (lines_of t). length l < MaxScanTokenSize"
    and "t \<noteq> []" and "last t \<noteq> nl"
  shows "scanAll t = map dropCR (lines_of t)"
proof -
  have "scanAll (Join (lines_of t) [nl]) = map dropCR (lines_of t)"
    using assms by (intro scanAll_Join) (auto simp: lines_of_no_nl last_lines_of)
  then show ?thesis
    by (simp add: Join_lines_of)
qed

lemma TrimRight_snoc: "TrimRight (s @ [nl]) [nl] = TrimRight s [nl]"
  by (simp add: TrimRight_def)

lemma Trim_snoc: "Trim (s @ [nl]) [nl] = Trim s [nl]"
  by (simp add: Trim_def TrimRight_snoc)

lemma Trim_Cons: "Trim (nl # s) [nl] = Trim s [nl]"
proof (cases "\<forall>x \<in> set (rev s). x = nl")
  case True
  then have "TrimRight (nl # s) [nl] = []" and "TrimRight s [nl] = []"
    by (simp_all add: TrimRight_def dropWhile_eq_Nil_conv)
  then show ?thesis
    by (simp add: Trim_def)
next
  case False
  then show ?thesis
    by (auto simp add: Trim_def TrimRight_def TrimLeft_def dropWhile_append)
qed

lemma Trim_replicate: "Trim (replicate a nl @ s @ replicate b nl) [nl] = Trim s [nl]"
proof (induction a)
  case 0
  show ?case
  proof (induction b)
    case 0
    show ?case by simp
  next
    case (Suc b)
    have "replicate (Suc b) nl = replicate b nl @ [nl]"
      by (simp add: replicate_append_same)
    then have "Trim (s @ replicate (Suc b) nl) [nl] = Trim ((s @ replicate b nl) @ [nl]) [nl]"
      by simp
    with Suc show ?case
      by (simp only: Trim_snoc) simp
  qed
next
  case (Suc a)
  then show ?case by (simp add: Trim_Cons)
qed

lemma Trim_decompose:
  "\<exists>a b. s = replicate a nl @ Trim s [nl] @ replicate b nl"
proof -
  let ?P = "\<lambda>c. c \<in> set [nl]"
  have r: "s = TrimRight s [nl] @ rev (takeWhile ?P (rev s))"
    unfolding TrimRight_def
    by (metis rev_append rev_rev_ident takeWhile_dropWhile_id)
  have l: "TrimRight s [nl] = takeWhile ?P (TrimRight s [nl]) @ Trim s [nl]"
    unfolding Trim_def TrimLeft_def by simp
  have rep: "\<And>xs. takeWhile ?P xs = replicate (length (takeWhile ?P xs)) nl"
    by (rule replicate_length_same [symmetric]) (auto dest: set_takeWhileD)
  have "s = replicate (length (takeWhile ?P (TrimRight s [nl]))) nl @ Trim s [nl]
      @ replicate (length (takeWhile ?P (rev s))) nl"
    using r l rep by (metis append.assoc rev_replicate)
  then show ?thesis by blast
qed

lemma Trim_ends: "Trim s [nl] = [] \<or> (hd (Trim s [nl]) \<noteq> nl \<and> last (Trim s [nl]) \<noteq> nl)"
proof (cases "Trim s [nl] = []")
  case True
  then show ?thesis by simp
next
  case False
  let ?P = "\<lambda>c. c \<in> set [nl]"
  have "hd (Trim s [nl]) \<noteq> nl"
    using False hd_dropWhile [of ?P "TrimRight s [nl]"] by (simp add: Trim_def TrimLeft_def)
  moreover have "last (Trim s [nl]) \<noteq> nl"
  proof -
    have tr: "TrimRight s [nl] \<noteq> []"
      using False by (auto simp: Trim_def TrimLeft_def)
    then have "last (TrimRight s [nl]) \<noteq> nl"
      using hd_dropWhile [of ?P "rev s"] by (simp add: TrimRight_def last_rev)
    moreover have "last (Trim s [nl]) = last (TrimRight s [nl])"
      using False unfolding Trim_def TrimLeft_def
      by (metis last_appendR takeWhile_dropWhile_id)
    ultimately show ?thesis by simp
  qed
  ultimately show ?thesis by simp
qed

lemma dropWhile_hd: "xs \<noteq> [] \<Longrightarrow> \<not> P (hd xs) \<Longrightarrow> dropWhile P xs = xs"
  by (cases xs) auto

lemma Trim_fixed:
  assumes "s = [] \<or> (hd s \<noteq> nl \<and> last s \<noteq> nl)"
  shows "Trim s [nl] = s"
proof (cases "s = []")
  case True
  then show ?thesis by (simp add: Trim_def TrimRight_def TrimLeft_def)
next
  case False
  with assms have h: "hd s \<noteq> nl" and l: "last s \<noteq> nl" by simp_all
  have "dropWhile (\<lambda>c. c \<in> set [nl]) (rev s) = rev s"
    using False l by (intro dropWhile_hd) (simp_all add: hd_rev)
  then have "TrimRight s [nl] = s"
    by (simp add: TrimRight_def)
  moreover have "dropWhile (\<lambda>c. c \<in> set [nl]) s = s"
    using False h by (intro dropWhile_hd) simp_all
  ultimately show ?thesis
    by (simp add: Trim_def TrimLeft_def)
qed


lemma lines_of_snoc_replicate: "lines_of (s @ replicate b nl) = lines_of s @ replicate b []"
proof (induction b)
  case 0
  show ?case by simp
next
  case (Suc b)
  have "s @ replicate (Suc b) nl = (s @ replicate b nl) @ [nl]"
    by (simp add: replicate_append_same)
  then have "lines_of (s @ replicate (Suc b) nl) = lines_of (s @ replicate b nl) @ [[]]"
    by (simp only: lines_of_snoc_nl)
  with Suc show ?case
    by (simp add: replicate_append_same)
qed

lemma lines_of_replicate_Cons: "set (lines_of s) \<subseteq> set (lines_of (replicate a nl @ s))"
  by (induction a) auto

lemma lines_of_Trim: "set (lines_of (Trim s [nl])) \<subseteq> set (lines_of s)"
proof -
  obtain a b where s: "s = replicate a nl @ Trim s [nl] @ replicate b nl"
    using Trim_decompose by blast
  have "set (lines_of (Trim s [nl])) \<subseteq> set (lines_of (Trim s [nl] @ replicate b nl))"
    by (simp add: lines_of_snoc_replicate)
  also have "\<dots> \<subseteq> set (lines_of (replicate a nl @ Trim s [nl] @ replicate b nl))"
    by (rule lines_of_replicate_Cons)
  finally show ?thesis
    using s by simp
qed

lemma set_Trim: "set (Trim s [nl]) \<subseteq> set s"
proof -
  obtain a b where s: "s = replicate a nl @ Trim s [nl] @ replicate b nl"
    using Trim_decompose by blast
  have "set (Trim s [nl]) \<subseteq> set (replicate a nl @ Trim s [nl] @ replicate b nl)"
    by auto
  with s show ?thesis by simp
qed

lemma HasPrefix_fence_bq: "HasPrefix l fence \<Longrightarrow> bq \<in> set l"
  by (cases l) (auto simp: HasPrefix_def fence_def)

lemma foldl_cleanUpLine_plain:
  "\<forall>l \<in> set ls. bq \<notin> set l \<Longrightarrow> foldl cleanUpLine (False, acc) ls = (False, acc @ ls)"
proof (induction ls arbitrary: acc)
  case Nil
  show ?case by simp
next
  case (Cons l ls)
  then have "\<not> HasPrefix l fence"
    using HasPrefix_fence_bq by auto
  then have "cleanUpLine (False, acc) l = (False, acc @ [l])"
    using Cons.prems by (simp add: cleanUpLine_other ReplaceAll_absent)
  with Cons show ?case by simp
qed

lemma cleanUpLines_plain: "\<forall>l \<in> set ls. bq \<notin> set l \<Longrightarrow> cleanUpLines ls = ls"
  by (simp add: cleanUpLines_def foldl_cleanUpLine_plain)

lemma Trim_wrapped: "Trim ([nl] @ s @ [nl]) [nl] = Trim s [nl]"
  using Trim_replicate [of 1 s 1] by simp

section \<open>Matching on well-formed documents\<close>

lemma HasPrefix_iff_prefix: "HasPrefix s p \<longleftrightarrow> prefix p s"
proof
  assume "HasPrefix s p"
  then have "p = take (length p) s" by (simp add: HasPrefix_def)
  then show "prefix p s" by (metis take_is_prefix)
next
  assume "prefix p s"
  then show "HasPrefix s p" by (auto simp: HasPrefix_def prefix_def)
qed

lemma HasPrefix_Cons: "HasPrefix (c # cs) (x # xs) \<longleftrightarrow> c = x \<and> HasPrefix cs xs"
  by (auto simp: HasPrefix_iff_prefix)

lemma HasPrefix_Nil: "HasPrefix s []"
  by (simp add: HasPrefix_iff_prefix)

lemma HasPrefix_Nil_left: "HasPrefix [] p \<longleftrightarrow> p = []"
  by (simp add: HasPrefix_iff_prefix)

lemma HasPrefix_append_left: "HasPrefix s (p @ q) \<Longrightarrow> HasPrefix s p"
  by (auto simp: HasPrefix_iff_prefix dest: append_prefixD)

lemma Contains_iff: "Contains s p \<longleftrightarrow> (\<exists>z. suffix z s \<and> HasPrefix z p)"
proof (induction s)
  case Nil
  show ?case by (auto simp: HasPrefix_Nil_left)
next
  case (Cons c cs)
  show ?case
    by (auto simp: Cons suffix_Cons)
qed

lemma Contains_iff_sublist: "Contains s p \<longleftrightarrow> sublist p s"
  by (auto simp: Contains_iff HasPrefix_iff_prefix sublist_altdef')

text \<open>
  A pattern that starts in \<open>a\<close> and matches \<open>a @ t\<close> lies within \<open>a\<close>, or \<open>t\<close> starts
  with a proper, non-empty suffix of the pattern.
\<close>

lemma HasPrefix_append_cases:
  assumes "HasPrefix (a @ t) p"
  shows "HasPrefix a p \<or> (length a < length p \<and> HasPrefix t (drop (length a) p))"
proof -
  from assms have "prefix p (a @ t)" by (simp add: HasPrefix_iff_prefix)
  then consider "prefix p a" | us where "p = a @ us" "prefix us t"
    by (auto simp: prefix_append)
  then show ?thesis
  proof cases
    case 1
    then show ?thesis by (simp add: HasPrefix_iff_prefix)
  next
    case 2
    show ?thesis
    proof (cases "us = []")
      case True
      with 2 show ?thesis by (simp add: HasPrefix_iff_prefix)
    next
      case False
      with 2 show ?thesis by (simp add: HasPrefix_iff_prefix)
    qed
  qed
qed

lemma marker_tail_no_lt: "0 < k \<Longrightarrow> k < length marker \<Longrightarrow> \<exists>x xs. drop k marker = x # xs \<and> x \<noteq> CHR ''<''"
proof -
  assume k: "0 < k" "k < length marker"
  then have "drop k marker = marker ! k # drop (Suc k) marker"
    by (simp add: Cons_nth_drop_Suc)
  moreover have "marker ! k \<in> set (tl marker)"
    using k by (metis Suc_pred in_set_conv_nth length_tl less_diff_conv nth_tl Suc_eq_plus1)
  then have "marker ! k \<noteq> CHR ''<''"
    by (auto simp: marker_def)
  ultimately show ?thesis by blast
qed

lemma free_before_lt:
  assumes "\<not> Contains g marker" and "t = [] \<or> hd t = CHR ''<''"
    and "z \<noteq> []" and "suffix z g"
  shows "\<not> HasPrefix (z @ t) marker"
proof
  assume "HasPrefix (z @ t) marker"
  then consider "HasPrefix z marker"
    | "length z < length marker" "HasPrefix t (drop (length z) marker)"
    using HasPrefix_append_cases by blast
  then show False
  proof cases
    case 1
    with assms(1,4) show False by (auto simp: Contains_iff)
  next
    case 2
    from assms(3) 2(1) obtain x xs where d: "drop (length z) marker = x # xs" "x \<noteq> CHR ''<''"
      using marker_tail_no_lt [of "length z"] by auto
    with 2(2) assms(2) show False
      by (cases t) (auto simp: HasPrefix_Cons HasPrefix_Nil_left)
  qed
qed

lemma no_lt_no_marker:
  assumes "CHR ''<'' \<notin> set z'" and "z \<noteq> []" and "suffix z z'"
  shows "\<not> HasPrefix (z @ t) marker"
proof -
  from assms obtain c cs where z: "z = c # cs" "c \<noteq> CHR ''<''"
    by (cases z) (auto simp: suffix_def)
  then show ?thesis
    by (simp add: marker_def HasPrefix_Cons)
qed

lemma free_before_close:
  assumes "\<not> Contains c marker" and "z \<noteq> []" and "suffix z c"
  shows "\<not> HasPrefix (z @ ''-->'' @ s) marker"
proof
  assume "HasPrefix (z @ ''-->'' @ s) marker"
  then consider "HasPrefix z marker"
    | "length z < length marker" "HasPrefix (''-->'' @ s) (drop (length z) marker)"
    using HasPrefix_append_cases by blast
  then show False
  proof cases
    case 1
    with assms(1,3) show False by (auto simp: Contains_iff)
  next
    case 2
    define k where "k = length z"
    have "0 < k" "k < 10"
      using assms(2) 2(1) by (simp_all add: k_def marker_def)
    then have "k = 1 \<or> k = 2 \<or> k = 3 \<or> k = 4 \<or> k = 5 \<or> k = 6 \<or> k = 7 \<or> k = 8 \<or> k = 9"
      by arith
    with 2(2) show False
      unfolding k_def [symmetric]
      by (auto simp: marker_def HasPrefix_Cons HasPrefix_Nil_left)
  qed
qed

lemma close_free_before_close:
  assumes "\<not> Contains c ''-->''" and "z \<noteq> []" and "suffix z c"
  shows "\<not> HasPrefix (z @ ''-->'' @ s) ''-->''"
proof
  assume "HasPrefix (z @ ''-->'' @ s) ''-->''"
  then consider "HasPrefix z ''-->''"
    | "length z < length ''-->''" "HasPrefix (''-->'' @ s) (drop (length z) ''-->'')"
    using HasPrefix_append_cases by blast
  then show False
  proof cases
    case 1
    with assms(1,3) show False by (auto simp: Contains_iff)
  next
    case 2
    define k where "k = length z"
    have "0 < k" "k < 3"
      using assms(2) 2(1) by (simp_all add: k_def)
    then have "k = 1 \<or> k = 2"
      by arith
    with 2(2) show False
      unfolding k_def [symmetric]
      by (auto simp: HasPrefix_Cons HasPrefix_Nil_left)
  qed
qed

lemma cutAt_found:
  assumes "lit \<noteq> []"
    and "\<forall>z. z \<noteq> [] \<and> suffix z c \<longrightarrow> \<not> HasPrefix (z @ lit @ s) lit"
  shows "cutAt lit (c @ lit @ s) = Some (c, s)"
  using assms(2)
proof (induction c)
  case Nil
  obtain x xs where "lit @ s = x # xs"
    using assms(1) by (cases "lit @ s") simp_all
  moreover have "HasPrefix (lit @ s) lit"
    by (simp add: HasPrefix_iff_prefix)
  ultimately show ?case
    by (metis append_Nil cutAt.simps(2) append_eq_conv_conj)
next
  case (Cons x c)
  have "\<not> HasPrefix ((x # c) @ lit @ s) lit"
    using Cons.prems [rule_format, of "x # c"] by simp
  moreover have "cutAt lit (c @ lit @ s) = Some (c, s)"
    using Cons by (simp add: suffix_Cons)
  ultimately show ?case by simp
qed

lemma matchAlt_fieldNames:
  "f \<in> set fieldNames \<Longrightarrow> matchAlt fieldNames (f @ t) = Some (f, t)"
  by (auto simp: fieldNames_def HasPrefix_Cons HasPrefix_Nil)

lemma fieldNames_no_lt: "f \<in> set fieldNames \<Longrightarrow> CHR ''<'' \<notin> set f"
  by (auto simp: fieldNames_def)

lemma FindAll_Nil:
  "FindAllStringSubmatch mdtogoTag [] = []" "FindAllStringSubmatch mdtogoInternalTag [] = []"
  by (simp_all add: FindAllStringSubmatch.simps mdtogoTag_def mdtogoInternalTag_def
      HasPrefix_Nil_left marker_def)

lemma FindAll_skip1: "re (c # cs) = None \<Longrightarrow> FindAllStringSubmatch re (c # cs) = FindAllStringSubmatch re cs"
  by (subst FindAllStringSubmatch.simps) simp

lemma FindAll_hit:
  "re s = Some (g, rest) \<Longrightarrow> length rest < length s \<Longrightarrow>
   FindAllStringSubmatch re s = g # FindAllStringSubmatch re rest"
  by (subst FindAllStringSubmatch.simps) simp

lemma FindAll_skip:
  "\<forall>z'. z' \<noteq> [] \<and> suffix z' z \<longrightarrow> re (z' @ s) = None \<Longrightarrow>
   FindAllStringSubmatch re (z @ s) = FindAllStringSubmatch re s"
proof (induction z)
  case Nil
  show ?case by simp
next
  case (Cons c z)
  have "re ((c # z) @ s) = None"
    using Cons.prems [rule_format, of "c # z"] by simp
  then have "FindAllStringSubmatch re ((c # z) @ s) = FindAllStringSubmatch re (z @ s)"
    by (simp add: FindAll_skip1)
  moreover have "FindAllStringSubmatch re (z @ s) = FindAllStringSubmatch re s"
    using Cons by (simp add: suffix_Cons)
  ultimately show ?case by simp
qed

lemma no_marker_no_match:
  "\<not> HasPrefix s marker \<Longrightarrow> mdtogoTag s = None \<and> mdtogoInternalTag s = None"
  using HasPrefix_append_left [of s marker "'':''"]
  by (auto simp: mdtogoTag_def mdtogoInternalTag_def)

lemma FindAll_skip_free:
  assumes "\<forall>z'. z' \<noteq> [] \<and> suffix z' z \<longrightarrow> \<not> HasPrefix (z' @ s) marker"
  shows "FindAllStringSubmatch mdtogoTag (z @ s) = FindAllStringSubmatch mdtogoTag s"
    and "FindAllStringSubmatch mdtogoInternalTag (z @ s) = FindAllStringSubmatch mdtogoInternalTag s"
  using assms by (auto intro!: FindAll_skip simp: no_marker_no_match)


lemma marker_Cons: "marker = CHR ''<'' # ''!--mdtogo''"
  by (simp add: marker_def)

lemma HasPrefix_marker_colon: "HasPrefix (marker @ CHR '':'' # x) (marker @ '':'')"
  by (simp add: HasPrefix_iff_prefix)

lemma reSpace_chars: "reSpace w \<Longrightarrow> w \<noteq> CHR ''-'' \<and> w \<noteq> CHR ''<''"
  by (auto simp: reSpace_def)

lemma mdtogoTag_Visible:
  assumes "wfRegion (Visible f c)"
  shows "mdtogoTag (renderRegion (Visible f c) @ s) = Some ((f, c), s)"
proof -
  let ?lit = "marker @ ''-->''"
  have f: "f \<in> set fieldNames" and c: "\<not> Contains c marker"
    using assms by simp_all
  have "\<forall>z. z \<noteq> [] \<and> suffix z c \<longrightarrow> \<not> HasPrefix (z @ ?lit @ s) ?lit"
  proof (intro allI impI)
    fix z assume "z \<noteq> [] \<and> suffix z c"
    then have z1: "z \<noteq> []" and z2: "suffix z c" by simp_all
    have "\<not> HasPrefix (z @ (?lit @ s)) marker"
      by (rule free_before_lt [OF c _ z1 z2]) (simp add: marker_Cons)
    then show "\<not> HasPrefix (z @ ?lit @ s) ?lit"
      using HasPrefix_append_left by blast
  qed
  then have cut: "cutAt ?lit (c @ ?lit @ s) = Some (c, s)"
    by (intro cutAt_found) (simp_all add: marker_def)
  have pre: "HasPrefix ((marker @ '':'') @ f @ ''-->'' @ c @ ?lit @ s) (marker @ '':'')"
    by (simp only: HasPrefix_append_same)
  have alt: "matchAlt fieldNames (f @ ''-->'' @ c @ ?lit @ s) = Some (f, ''-->'' @ c @ ?lit @ s)"
    using f by (rule matchAlt_fieldNames)
  have "mdtogoTag ((marker @ '':'') @ f @ ''-->'' @ c @ ?lit @ s) = Some ((f, c), s)"
    unfolding mdtogoTag_def using pre alt cut
    by (simp add: HasPrefix_Cons HasPrefix_Nil)
  then show ?thesis by simp
qed

lemma mdtogoInternalTag_Visible:
  assumes "f \<in> set fieldNames"
  shows "mdtogoInternalTag ((marker @ '':'') @ f @ ''-->'' @ t) = None"
proof -
  have alt: "matchAlt fieldNames (f @ ''-->'' @ t) = Some (f, ''-->'' @ t)"
    using assms by (rule matchAlt_fieldNames)
  show ?thesis
    unfolding mdtogoInternalTag_def using alt
    by (simp add: HasPrefix_append_same reSpace_def)
qed

lemma mdtogoInternalTag_Hidden:
  assumes "wfRegion (Hidden f w c)"
  shows "mdtogoInternalTag (renderRegion (Hidden f w c) @ s) = Some ((f, c), s)"
proof -
  have f: "f \<in> set fieldNames" and w: "reSpace w" and c: "\<not> Contains c ''-->''"
    using assms by simp_all
  have "\<forall>z. z \<noteq> [] \<and> suffix z c \<longrightarrow> \<not> HasPrefix (z @ ''-->'' @ s) ''-->''"
    using c close_free_before_close by blast
  then have cut: "cutAt ''-->'' (c @ ''-->'' @ s) = Some (c, s)"
    by (intro cutAt_found) simp_all
  have alt: "matchAlt fieldNames (f @ w # c @ ''-->'' @ s) = Some (f, w # c @ ''-->'' @ s)"
    using f by (rule matchAlt_fieldNames)
  have "mdtogoInternalTag ((marker @ '':'') @ f @ w # c @ ''-->'' @ s) = Some ((f, c), s)"
    unfolding mdtogoInternalTag_def using alt cut w
    by (simp add: HasPrefix_marker_colon)
  then show ?thesis by simp
qed

lemma mdtogoTag_Hidden:
  assumes "f \<in> set fieldNames" and "reSpace w"
  shows "mdtogoTag ((marker @ '':'') @ f @ w # t) = None"
proof -
  have alt: "matchAlt fieldNames (f @ w # t) = Some (f, w # t)"
    using assms(1) by (rule matchAlt_fieldNames)
  show ?thesis
    unfolding mdtogoTag_def using alt reSpace_chars [OF assms(2)]
    by (simp add: HasPrefix_append_same HasPrefix_Cons)
qed

lemma mdtogoInternalTag_close: "mdtogoInternalTag (marker @ ''-->'' @ s) = None"
  by (simp add: mdtogoInternalTag_def marker_def HasPrefix_Cons)

lemma skip_no_lt:
  assumes "CHR ''<'' \<notin> set z"
  shows "FindAllStringSubmatch mdtogoTag (z @ s) = FindAllStringSubmatch mdtogoTag s"
    and "FindAllStringSubmatch mdtogoInternalTag (z @ s) = FindAllStringSubmatch mdtogoInternalTag s"
  using assms no_lt_no_marker by (auto intro!: FindAll_skip_free)

lemma skip_gap:
  assumes "\<not> Contains g marker" and "t = [] \<or> hd t = CHR ''<''"
  shows "FindAllStringSubmatch mdtogoTag (g @ t) = FindAllStringSubmatch mdtogoTag t"
    and "FindAllStringSubmatch mdtogoInternalTag (g @ t) = FindAllStringSubmatch mdtogoInternalTag t"
  using assms free_before_lt by (auto intro!: FindAll_skip_free)

lemma skip_Visible:
  assumes "wfRegion (Visible f c)"
  shows "FindAllStringSubmatch mdtogoInternalTag (renderRegion (Visible f c) @ s) =
         FindAllStringSubmatch mdtogoInternalTag s"
proof -
  let ?F = "FindAllStringSubmatch mdtogoInternalTag"
  have f: "f \<in> set fieldNames" and c: "\<not> Contains c marker"
    using assms by simp_all
  let ?close = "marker @ ''-->'' @ s"
  have "renderRegion (Visible f c) @ s = (marker @ '':'') @ f @ ''-->'' @ c @ ?close"
    by simp
  moreover have "?F ((marker @ '':'') @ f @ ''-->'' @ c @ ?close) =
      ?F ((''!--mdtogo:'' @ f @ ''-->'') @ c @ ?close)"
    using mdtogoInternalTag_Visible [OF f, of "c @ ?close"]
    by (simp add: marker_Cons FindAll_skip1)
  moreover have "?F ((''!--mdtogo:'' @ f @ ''-->'') @ c @ ?close) = ?F (c @ ?close)"
    using fieldNames_no_lt [OF f] by (intro skip_no_lt) simp
  moreover have "?F (c @ ?close) = ?F ?close"
    using c by (intro skip_gap) (simp_all add: marker_Cons)
  moreover have "?F ?close = ?F (''!--mdtogo-->'' @ s)"
    using mdtogoInternalTag_close [of s] by (simp add: marker_Cons FindAll_skip1)
  moreover have "?F (''!--mdtogo-->'' @ s) = ?F s"
    by (intro skip_no_lt) simp
  ultimately show ?thesis by simp
qed

lemma skip_Hidden:
  assumes "wfRegion (Hidden f w c)"
  shows "FindAllStringSubmatch mdtogoTag (renderRegion (Hidden f w c) @ s) =
         FindAllStringSubmatch mdtogoTag s"
proof -
  let ?F = "FindAllStringSubmatch mdtogoTag"
  have f: "f \<in> set fieldNames" and w: "reSpace w" and c: "\<not> Contains c marker"
    using assms by simp_all
  have "renderRegion (Hidden f w c) @ s = (marker @ '':'') @ f @ w # c @ ''-->'' @ s"
    by simp
  moreover have "?F ((marker @ '':'') @ f @ w # c @ ''-->'' @ s) =
      ?F ((''!--mdtogo:'' @ f @ [w]) @ c @ ''-->'' @ s)"
    using mdtogoTag_Hidden [OF f w, of "c @ ''-->'' @ s"]
    by (simp add: marker_Cons FindAll_skip1)
  moreover have "?F ((''!--mdtogo:'' @ f @ [w]) @ c @ ''-->'' @ s) = ?F (c @ ''-->'' @ s)"
    using fieldNames_no_lt [OF f] reSpace_chars [OF w] by (intro skip_no_lt) auto
  moreover have "?F (c @ ''-->'' @ s) = ?F (''-->'' @ s)"
    using c free_before_close by (intro FindAll_skip_free) blast
  moreover have "?F (''-->'' @ s) = ?F s"
    by (intro skip_no_lt) simp
  ultimately show ?thesis by simp
qed

lemma render_starts:
  "render rs tail = [] \<or> hd (render rs tail) = CHR ''<'' \<or> rs = [] \<or> fst (hd rs) \<noteq> []"
  by (cases rs; cases "snd (hd rs)") (auto simp: marker_Cons)

lemma renderRegion_hd: "hd (renderRegion r @ t) = CHR ''<''"
  by (cases r) (simp_all add: marker_Cons)

lemma length_renderRegion: "0 < length (renderRegion r)"
  by (cases r) (simp_all add: marker_Cons)

lemma matches_of_wf_doc:
  assumes "wfDoc rs tail"
  shows "FindAllStringSubmatch mdtogoTag (render rs tail) = visibleGroups rs \<and>
         FindAllStringSubmatch mdtogoInternalTag (render rs tail) = hiddenGroups rs"
  using assms
proof (induction rs)
  case Nil
  then have "\<not> Contains tail marker" by (simp add: wfDoc_def)
  then show ?case
    using skip_gap [of tail "[]"] by (simp add: FindAll_Nil)
next
  case (Cons gr rs)
  obtain g r where gr: "gr = (g, r)" by (cases gr)
  from Cons.prems gr have g: "\<not> Contains g marker" and r: "wfRegion r" and rest: "wfDoc rs tail"
    by (simp_all add: wfDoc_def)
  let ?t = "render rs tail"
  note IH = Cons.IH [OF rest]
  have gap: "FindAllStringSubmatch mdtogoTag (g @ renderRegion r @ ?t) =
      FindAllStringSubmatch mdtogoTag (renderRegion r @ ?t)"
    "FindAllStringSubmatch mdtogoInternalTag (g @ renderRegion r @ ?t) =
      FindAllStringSubmatch mdtogoInternalTag (renderRegion r @ ?t)"
    using g by (intro skip_gap; simp add: renderRegion_hd)+
  show ?case
  proof (cases r)
    case (Visible f c)
    have "FindAllStringSubmatch mdtogoTag (renderRegion r @ ?t) =
        (f, c) # FindAllStringSubmatch mdtogoTag ?t"
      using mdtogoTag_Visible [of f c ?t] r Visible length_renderRegion [of r]
      by (intro FindAll_hit) simp_all
    moreover have "FindAllStringSubmatch mdtogoInternalTag (renderRegion r @ ?t) =
        FindAllStringSubmatch mdtogoInternalTag ?t"
      using skip_Visible r Visible by simp
    ultimately show ?thesis
      using gap IH gr Visible by simp
  next
    case (Hidden f w c)
    have "FindAllStringSubmatch mdtogoInternalTag (renderRegion r @ ?t) =
        (f, c) # FindAllStringSubmatch mdtogoInternalTag ?t"
      using mdtogoInternalTag_Hidden [of f w c ?t] r Hidden length_renderRegion [of r]
      by (intro FindAll_hit) simp_all
    moreover have "FindAllStringSubmatch mdtogoTag (renderRegion r @ ?t) =
        FindAllStringSubmatch mdtogoTag ?t"
      using skip_Hidden r Hidden by simp
    ultimately show ?thesis
      using gap IH gr Hidden by simp
  qed
qed

section \<open>The loop of parse\<close>

lemma lastContent_snoc:
  "lastContent f (ms @ [m]) = (if fst m = f then Some (snd m) else lastContent f ms)"
  by (simp add: lastContent_def)

lemma lastContent_Nil [simp]: "lastContent f [] = None"
  by (simp add: lastContent_def)

lemma foldl_parseMatch:
  "Short (foldl parseMatch d ms) =
     (case lastContent ''Short'' ms of None \<Rightarrow> Short d | Some c \<Rightarrow> TrimSpace c) \<and>
   Long (foldl parseMatch d ms) =
     (case lastContent ''Long'' ms of None \<Rightarrow> Long d | Some c \<Rightarrow> cleanUpContent c) \<and>
   Examples (foldl parseMatch d ms) =
     (case lastContent ''Examples'' ms of None \<Rightarrow> Examples d | Some c \<Rightarrow> cleanUpContent c) \<and>
   Name (foldl parseMatch d ms) = Name d"
proof (induction ms rule: rev_induct)
  case Nil
  show ?case by simp
next
  case (snoc m ms)
  then show ?case
    by (simp add: lastContent_snoc parseMatch_def)
qed

lemma parse_fields:
  "Short (parse T path v) =
     (case lastContent ''Short'' (parseMatches v) of None \<Rightarrow> [] | Some c \<Rightarrow> TrimSpace c)"
  "Long (parse T path v) =
     (case lastContent ''Long'' (parseMatches v) of None \<Rightarrow> [] | Some c \<Rightarrow> cleanUpContent c)"
  "Examples (parse T path v) =
     (case lastContent ''Examples'' (parseMatches v) of None \<Rightarrow> [] | Some c \<Rightarrow> cleanUpContent c)"
  using foldl_parseMatch [of emptyDoc "parseMatches v"]
  by (auto simp: parse_def Let_def emptyDoc_def split: option.splits)

lemma parseMatches_wf:
  "wfDoc rs tail \<Longrightarrow> parseMatches (render rs tail) = visibleGroups rs @ hiddenGroups rs"
  by (simp add: parseMatches_def matches_of_wf_doc)

lemma lastContent_append:
  "lastContent f (xs @ ys) = (case lastContent f ys of None \<Rightarrow> lastContent f xs | Some c \<Rightarrow> Some c)"
  by (induction ys rule: rev_induct)
     (simp_all add: lastContent_snoc append_assoc [symmetric] del: append_assoc)

section \<open>What a stored value can contain\<close>

lemma sublist_sep:
  assumes "x \<notin> set m" and "sublist m (a @ x # b)"
  shows "sublist m a \<or> sublist m b"
proof -
  from assms(2) consider "sublist m a" | "sublist m (x # b)"
    | xs1 xs2 where "m = xs1 @ xs2" "suffix xs1 a" "prefix xs2 (x # b)"
    by (auto simp: sublist_append)
  then show ?thesis
  proof cases
    case 1
    then show ?thesis by simp
  next
    case 2
    then have "prefix m (x # b) \<or> sublist m b"
      by (simp add: sublist_Cons_right)
    then show ?thesis
      using assms(1) by (cases m) auto
  next
    case 3
    show ?thesis
    proof (cases xs2)
      case Nil
      with 3 show ?thesis by auto
    next
      case (Cons y ys)
      with 3 have "y = x" by simp
      with 3(1) Cons assms(1) show ?thesis by simp
    qed
  qed
qed

lemma sublist_Join:
  assumes "nl \<notin> set m" and "m \<noteq> []"
  shows "sublist m (Join ls [nl]) \<Longrightarrow> \<exists>l \<in> set ls. sublist m l"
proof (induction ls)
  case Nil
  with assms(2) show ?case by simp
next
  case (Cons x ls)
  show ?case
  proof (cases ls)
    case Nil
    with Cons.prems show ?thesis by simp
  next
    case (Cons y ys)
    with Cons.prems have "sublist m (x @ nl # Join ls [nl])" by simp
    then have "sublist m x \<or> sublist m (Join ls [nl])"
      by (rule sublist_sep [OF assms(1)])
    then show ?thesis
    proof
      assume "sublist m x"
      then show ?thesis by simp
    next
      assume "sublist m (Join ls [nl])"
      then have "\<exists>l \<in> set ls. sublist m l" by (rule Cons.IH)
      then show ?thesis by simp
    qed
  qed
qed

lemma sublist_skip_prefix:
  assumes "set a \<inter> set m = {}" and "m \<noteq> []" and "sublist m (a @ b)"
  shows "sublist m b"
  using assms
proof (induction a)
  case Nil
  then show ?case by simp
next
  case (Cons x a)
  then have "x \<notin> set m" by auto
  with Cons.prems(3) have "sublist m [] \<or> sublist m (a @ b)"
    using sublist_sep [of x m "[]" "a @ b"] by simp
  with Cons show ?case by auto
qed

lemma prefix_replace:
  assumes "set m \<inter> set e = {}" and "e \<noteq> []"
  shows "prefix m (ReplaceAll x [q] e) \<Longrightarrow> prefix m x"
  using assms(1)
proof (induction x arbitrary: m)
  case Nil
  then show ?case by simp
next
  case (Cons c x)
  show ?case
  proof (cases m)
    case Nil
    then show ?thesis by simp
  next
    case m: (Cons y ys)
    show ?thesis
    proof (cases "c = q")
      case True
      with Cons.prems(1) have "prefix m (e @ ReplaceAll x [q] e)"
        by (simp add: ReplaceAll_Cons_single)
      with m assms(2) have "y = hd e"
        by (cases e) simp_all
      with assms(2) Cons.prems(2) m show ?thesis
        by (cases e) auto
    next
      case False
      with Cons.prems(1) m have "y = c" and "prefix ys (ReplaceAll x [q] e)"
        by (simp_all add: ReplaceAll_Cons_single)
      moreover have "set ys \<inter> set e = {}"
        using Cons.prems(2) m by auto
      ultimately show ?thesis
        using Cons.IH [of ys] m by simp
    qed
  qed
qed

lemma sublist_replace:
  assumes "set m \<inter> set e = {}" and "e \<noteq> []" and "m \<noteq> []"
  shows "sublist m (ReplaceAll x [q] e) \<Longrightarrow> sublist m x"
proof (induction x)
  case Nil
  then show ?case by simp
next
  case (Cons c x)
  have step: "sublist m x \<Longrightarrow> sublist m (c # x)"
    by (simp add: sublist_Cons_right)
  show ?case
  proof (cases "c = q")
    case True
    with Cons.prems have "sublist m (e @ ReplaceAll x [q] e)"
      by (simp add: ReplaceAll_Cons_single)
    moreover have "set e \<inter> set m = {}"
      using assms(1) by blast
    ultimately have "sublist m (ReplaceAll x [q] e)"
      using assms(3) sublist_skip_prefix by blast
    then show ?thesis
      using Cons.IH step by blast
  next
    case False
    with Cons.prems have "sublist m (c # ReplaceAll x [q] e)"
      by (simp add: ReplaceAll_Cons_single)
    then consider "prefix m (c # ReplaceAll x [q] e)" | "sublist m (ReplaceAll x [q] e)"
      unfolding sublist_Cons_right by blast
    then show ?thesis
    proof cases
      case 1
      with False have "prefix m (ReplaceAll (c # x) [q] e)"
        by (simp add: ReplaceAll_Cons_single)
      then have "prefix m (c # x)"
        by (rule prefix_replace [OF assms(1,2)])
      then show ?thesis by (rule prefix_imp_sublist)
    next
      case 2
      then show ?thesis
        using Cons.IH step by blast
    qed
  qed
qed

lemma foldl_cleanUpLine_sources:
  "l \<in> set (snd (foldl cleanUpLine st ls)) \<Longrightarrow>
   l \<in> set (snd st) \<or>
   (\<exists>l0 \<in> set ls. l = ReplaceAll l0 [bq] backtickEscape \<or>
                    l = ''  '' @ ReplaceAll l0 [bq] backtickEscape)"
proof (induction ls arbitrary: st)
  case Nil
  then show ?case by simp
next
  case (Cons a ls)
  obtain i out where st: "st = (i, out)" by (cases st)
  from Cons.IH [of "cleanUpLine st a"] Cons.prems
  consider "l \<in> set (snd (cleanUpLine st a))"
    | "\<exists>l0 \<in> set ls. l = ReplaceAll l0 [bq] backtickEscape \<or>
                    l = ''  '' @ ReplaceAll l0 [bq] backtickEscape"
    by auto
  then show ?case
  proof cases
    case 1
    then show ?thesis
      using st by (cases "HasPrefix a fence") (auto simp: cleanUpLine_fence cleanUpLine_other)
  next
    case 2
    then show ?thesis by auto
  qed
qed

lemma dropCR_prefix: "prefix (dropCR l) l"
  by (simp add: dropCR_def prefixeq_butlast)

lemma Scan_sublist:
  assumes "Scan rest = Some (token, rest')"
  shows "sublist token rest \<and> suffix rest' rest"
proof -
  let ?buf = "take MaxScanTokenSize rest"
  from assms obtain advance where sl:
    "ScanLines ?buf (length rest < MaxScanTokenSize) = Some (advance, token)"
    and rest': "rest' = drop advance rest"
    by (auto simp: Scan_def Let_def split: option.splits)
  have "\<exists>x. token = dropCR x \<and> prefix x rest"
  proof (cases "IndexByte ?buf nl")
    case None
    with sl have "token = dropCR ?buf"
      by (simp add: ScanLines_def split: if_splits)
    then show ?thesis
      using take_is_prefix by blast
  next
    case (Some i)
    with sl have "token = dropCR (take i ?buf)"
      by (simp add: ScanLines_def split: if_splits)
    moreover have "prefix (take i ?buf) rest"
      using take_is_prefix prefix_order.trans by blast
    ultimately show ?thesis
      by blast
  qed
  then obtain x where x: "token = dropCR x" "prefix x rest"
    by blast
  have "prefix token x"
    unfolding x(1) by (rule dropCR_prefix)
  with x(2) have "prefix token rest"
    using prefix_order.trans by blast
  then show ?thesis
    by (simp add: rest' suffix_drop)
qed

lemma scanAll_sublist: "l \<in> set (scanAll t) \<Longrightarrow> sublist l t"
proof (induction t rule: scanAll.induct)
  case (1 rest)
  show ?case
  proof (cases "Scan rest")
    case None
    with "1.prems" show ?thesis
      by (subst (asm) scanAll.simps) simp
  next
    case (Some p)
    obtain token rest' where p: "p = (token, rest')" by (cases p)
    from "1.prems" Some p have "l = token \<or> l \<in> set (scanAll rest')"
      by (subst (asm) scanAll.simps) simp
    then show ?thesis
    proof
      assume "l = token"
      with Scan_sublist Some p show ?thesis by blast
    next
      assume "l \<in> set (scanAll rest')"
      with "1.IH" Some p have "sublist l rest'" by simp
      moreover have "suffix rest' rest"
        using Scan_sublist Some p by blast
      ultimately show ?thesis
        by (meson sublist_order.order.trans suffix_imp_sublist)
    qed
  qed
qed

lemma Trim_sublist: "sublist (Trim s [nl]) s"
  using Trim_decompose [of s] by (metis sublist_appendI)

lemma marker_chars:
  "nl \<notin> set marker" "marker \<noteq> []" "set marker \<inter> set backtickEscape = {}"
  "set ''  '' \<inter> set marker = {}" "backtickEscape \<noteq> []" "set [nl] \<inter> set marker = {}"
  by (simp_all add: marker_def nl_def backtickEscape_def bq_def dq_def)

lemma cleanUpContent_no_marker:
  assumes "\<not> Contains c marker"
  shows "\<not> Contains (cleanUpContent c) marker"
proof
  let ?ls = "scanAll (Trim c [nl])"
  assume "Contains (cleanUpContent c) marker"
  then have "sublist marker ([nl] @ Join (cleanUpLines ?ls) [nl] @ [nl])"
    by (simp add: Contains_iff_sublist cleanUpContent_def)
  then have "sublist marker (Join (cleanUpLines ?ls) [nl] @ [nl])"
    by (rule sublist_skip_prefix [OF marker_chars(6) marker_chars(2)])
  then have "sublist marker (Join (cleanUpLines ?ls) [nl]) \<or> sublist marker []"
    by (rule sublist_sep [OF marker_chars(1)])
  then have "sublist marker (Join (cleanUpLines ?ls) [nl])"
    using marker_chars(2) by simp
  then have "\<exists>l \<in> set (cleanUpLines ?ls). sublist marker l"
    by (rule sublist_Join [OF marker_chars(1) marker_chars(2)])
  then obtain l where l: "l \<in> set (cleanUpLines ?ls)" "sublist marker l"
    by blast
  from l(1) have "l \<in> set (snd (foldl cleanUpLine (False, []) ?ls))"
    by (simp add: cleanUpLines_def)
  then have "l \<in> set (snd (False, [])) \<or>
      (\<exists>l0 \<in> set ?ls. l = ReplaceAll l0 [bq] backtickEscape \<or>
                       l = ''  '' @ ReplaceAll l0 [bq] backtickEscape)"
    by (rule foldl_cleanUpLine_sources)
  then obtain l0 where l0: "l0 \<in> set ?ls"
      "l = ReplaceAll l0 [bq] backtickEscape \<or> l = ''  '' @ ReplaceAll l0 [bq] backtickEscape"
    by auto
  have "sublist marker (ReplaceAll l0 [bq] backtickEscape)"
  proof (rule disjE [OF l0(2)])
    assume "l = ReplaceAll l0 [bq] backtickEscape"
    with l(2) show ?thesis by simp
  next
    assume "l = ''  '' @ ReplaceAll l0 [bq] backtickEscape"
    with l(2) have "sublist marker (''  '' @ ReplaceAll l0 [bq] backtickEscape)" by simp
    then show ?thesis
      by (rule sublist_skip_prefix [OF marker_chars(4) marker_chars(2)])
  qed
  then have "sublist marker l0"
    by (rule sublist_replace [OF marker_chars(3) marker_chars(5) marker_chars(2)])
  moreover have "sublist l0 (Trim c [nl])"
    using l0(1) by (rule scanAll_sublist)
  moreover have "sublist (Trim c [nl]) c"
    by (rule Trim_sublist)
  ultimately have "sublist marker c"
    using sublist_order.order.trans by blast
  then show False
    using assms by (simp add: Contains_iff_sublist)
qed

lemma trimLeftSpace_suffix: "suffix (trimLeftSpace s) s"
proof (induction s rule: trimLeftSpace.induct)
  case (1 s)
  show ?case
  proof (cases "leadingSpace s")
    case None
    then show ?thesis by (subst trimLeftSpace.simps) simp
  next
    case (Some n)
    show ?thesis
    proof (cases "0 < n \<and> n \<le> length s")
      case True
      with 1 Some have "suffix (trimLeftSpace (drop n s)) (drop n s)" by simp
      then have "suffix (trimLeftSpace (drop n s)) s"
        using suffix_drop suffix_order.trans by blast
      with Some True show ?thesis by (subst trimLeftSpace.simps) simp
    next
      case False
      with Some show ?thesis by (subst trimLeftSpace.simps) auto
    qed
  qed
qed

lemma trimRightSpace_prefix: "prefix (trimRightSpace s) s"
proof (induction s rule: trimRightSpace.induct)
  case (1 s)
  show ?case
  proof (cases "trailingSpace s")
    case None
    then show ?thesis by (subst trimRightSpace.simps) simp
  next
    case (Some n)
    show ?thesis
    proof (cases "0 < n \<and> n \<le> length s")
      case True
      with 1 Some have "prefix (trimRightSpace (take (length s - n) s)) (take (length s - n) s)"
        by simp
      then have "prefix (trimRightSpace (take (length s - n) s)) s"
        using take_is_prefix prefix_order.trans by blast
      with Some True show ?thesis by (subst trimRightSpace.simps) simp
    next
      case False
      with Some show ?thesis by (subst trimRightSpace.simps) auto
    qed
  qed
qed

lemma TrimSpace_sublist: "sublist (TrimSpace s) s"
proof -
  have "sublist (TrimSpace s) (trimLeftSpace s)"
    unfolding TrimSpace_def using trimRightSpace_prefix by blast
  also have "sublist (trimLeftSpace s) s"
    using trimLeftSpace_suffix by blast
  finally show ?thesis .
qed

lemma TrimSpace_no_marker: "\<not> Contains c marker \<Longrightarrow> \<not> Contains (TrimSpace c) marker"
  using TrimSpace_sublist [of c] by (auto simp: Contains_iff_sublist)

lemma Contains_longer: "\<not> Contains s p \<Longrightarrow> \<not> Contains s (p @ q)"
  by (auto simp: Contains_iff dest: HasPrefix_append_left)

section \<open>Evaluation of parse\<close>

lemmas match_defs = parseMatches_def FindAllStringSubmatch.simps mdtogoTag_def
  mdtogoInternalTag_def marker_def HasPrefix_def fieldNames_def reSpace_def

lemmas trim_defs = TrimSpace_def trimLeftSpace.simps trimRightSpace.simps leadingSpace_def
  trailingSpace_def asciiSpace_def unicodeSpace_def

lemma visibleGroups_append: "visibleGroups (xs @ ys) = visibleGroups xs @ visibleGroups ys"
  by (induction xs rule: visibleGroups.induct) simp_all

lemma hiddenGroups_append: "hiddenGroups (xs @ ys) = hiddenGroups xs @ hiddenGroups ys"
  by (induction xs rule: hiddenGroups.induct) simp_all

lemma visibleGroups_fields:
  "\<forall>gr \<in> set rs. regionField (snd gr) \<noteq> f \<Longrightarrow> filter (\<lambda>m. fst m = f) (visibleGroups rs) = []"
  by (induction rs rule: visibleGroups.induct) simp_all

lemma hiddenGroups_fields:
  "\<forall>gr \<in> set rs. isHidden (snd gr) \<longrightarrow> regionField (snd gr) \<noteq> f \<Longrightarrow>
   filter (\<lambda>m. fst m = f) (hiddenGroups rs) = []"
  by (induction rs rule: hiddenGroups.induct) simp_all

lemma lastContent_region:
  assumes "\<forall>gr \<in> set after. regionField (snd gr) \<noteq> f"
    and "\<forall>gr \<in> set before. isHidden (snd gr) \<longrightarrow> regionField (snd gr) \<noteq> f"
  shows "lastContent f (visibleGroups (before @ (g, Visible f c) # after) @
                        hiddenGroups (before @ (g, Visible f c) # after)) = Some c"
proof -
  have "filter (\<lambda>m. fst m = f) (hiddenGroups (before @ (g, Visible f c) # after)) = []"
    using assms by (intro hiddenGroups_fields) auto
  moreover have "filter (\<lambda>m. fst m = f) (visibleGroups after) = []"
    using assms(1) by (rule visibleGroups_fields)
  ultimately show ?thesis
    by (simp add: lastContent_def visibleGroups_append)
qed

section \<open>The stages of main\<close>

lemma readDocs_world:
  "files (snd (readDocs os paths docs w)) = files w \<and>
   errOut (snd (readDocs os paths docs w)) = errOut w \<and>
   prefix (calls w) (calls (snd (readDocs os paths docs w)))"
proof (induction paths arbitrary: docs w)
  case Nil
  show ?case by simp
next
  case (Cons path paths)
  show ?case
  proof (cases "os_ReadFile os (files w) path")
    case (Inl err)
    then show ?thesis by (simp add: called_def)
  next
    case (Inr b)
    have "prefix (calls w) (calls (called (CallReadFile path) w))"
      by (simp add: called_def)
    then show ?thesis
      using Inr Cons [of "docs @ [parse (dirTitle os) path b]" "called (CallReadFile path) w"]
      by (auto simp: called_def dest: append_prefixD)
  qed
qed

lemma readDocs_result:
  "files w = files w' \<Longrightarrow> fst (readDocs os paths docs w) = fst (readDocs os paths docs w')"
proof (induction paths arbitrary: docs w w')
  case Nil
  show ?case by simp
next
  case (Cons path paths)
  show ?case
  proof (cases "os_ReadFile os (files w') path")
    case (Inl err)
    with Cons.prems show ?thesis by simp
  next
    case (Inr b)
    have "files (called (CallReadFile path) w) = files (called (CallReadFile path) w')"
      using Cons.prems by (simp add: called_def)
    then have "fst (readDocs os paths (docs @ [parse (dirTitle os) path b]) (called (CallReadFile path) w)) =
        fst (readDocs os paths (docs @ [parse (dirTitle os) path b]) (called (CallReadFile path) w'))"
      by (rule Cons.IH)
    with Inr Cons.prems show ?thesis by simp
  qed
qed

lemma readLicense_world:
  "files (snd (readLicense os lic w)) = files w \<and>
   errOut (snd (readLicense os lic w)) = errOut w \<and>
   prefix (calls w) (calls (snd (readLicense os lic w)))"
  by (simp add: readLicense_def called_def)

lemma readLicense_result:
  "files w = files w' \<Longrightarrow> fst (readLicense os lic w) = fst (readLicense os lic w')"
  by (simp add: readLicense_def)

lemma writeDocs_missing:
  assumes "\<not> os_Stat os (files w) dest"
    and "path = filepath_Join [dest, ''docs.go'']"
    and "content = Join out [nl]"
  shows "writeDocs os dest out w =
     (case os_WriteFile os (os_Mkdir os (files w) dest) path content of
        Inl err \<Rightarrow>
          (1, w\<lparr>files := os_Mkdir os (files w) dest,
                 calls := calls w @ [CallStat dest, CallMkdir dest, CallWriteFile path content],
                 errOut := errOut w @ err @ [nl]\<rparr>)
      | Inr fs' \<Rightarrow>
          (0, w\<lparr>files := fs',
                 calls := calls w @ [CallStat dest, CallMkdir dest, CallWriteFile path content]\<rparr>))"
  using assms by (simp add: writeDocs_def called_def fail_def Let_def split: sum.splits)

lemma prefix_nonempty: "prefix xs ys \<Longrightarrow> xs \<noteq> [] \<Longrightarrow> ys \<noteq> []"
  by auto

lemma main_calls:
  assumes "3 \<le> length args"
  shows "calls (snd (main os args fs)) \<noteq> []"
proof -
  obtain recursive licenseFile where flags: "foldl parseFlag (False, []) args = (recursive, licenseFile)"
    by (cases "foldl parseFlag (False, []) args")
  let ?w1 = "called (if recursive then CallWalk (args ! 1) else CallReadDir (args ! 1))
      \<lparr>files = fs, calls = [], errOut = []\<rparr>"
  have n3: "(length args < 3) = False"
    using assms by simp
  have w1: "calls ?w1 \<noteq> []"
    by (simp add: called_def)
  show ?thesis
  proof (cases "readFiles os fs recursive (args ! 1)")
    case (Inl err)
    have "main os args fs = fail (err @ [nl]) ?w1"
      unfolding main_def Let_def flags by (simp only: prod.case sum.case n3 if_False Inl)
    then show ?thesis
      using w1 by (simp add: fail_def)
  next
    case (Inr paths)
    obtain r2 w2 where rd: "readDocs os paths [] ?w1 = (r2, w2)"
      by (cases "readDocs os paths [] ?w1")
    have w2: "calls w2 \<noteq> []"
      using readDocs_world [of os paths "[]" ?w1] rd w1 prefix_nonempty by fastforce
    show ?thesis
    proof (cases r2)
      case (Inl err)
      have "main os args fs = fail (err @ [nl]) w2"
        unfolding main_def Let_def flags
        by (simp only: prod.case sum.case n3 if_False Inr rd Inl)
      then show ?thesis
        using w2 by (simp add: fail_def)
    next
      case docs: (Inr docs)
      obtain r3 w3 where rl: "readLicense os licenseFile w2 = (r3, w3)"
        by (cases "readLicense os licenseFile w2")
      have w3: "calls w3 \<noteq> []"
        using readLicense_world [of os licenseFile w2] rl w2 prefix_nonempty by fastforce
      show ?thesis
      proof (cases r3)
        case (Inl err)
        have "main os args fs = fail (err @ [nl]) w3"
          unfolding main_def Let_def flags
          by (simp only: prod.case sum.case n3 if_False Inr rd docs rl Inl)
        then show ?thesis
          using w3 by (simp add: fail_def)
      next
        case lic: (Inr license)
        have "main os args fs =
            writeDocs os (args ! 2) ([license, generatedHeader (args ! 2)] @ map String docs) w3"
          unfolding main_def Let_def flags
          by (simp only: prod.case sum.case n3 if_False Inr rd docs rl lic)
        then show ?thesis
          by (simp add: writeDocs_def called_def fail_def Let_def split: sum.splits)
      qed
    qed
  qed
qed

lemmas path_defs = filepath_Join_def Clean_def Base_def Ext_def lastElem_def uptoLastSep_def
  Split_def Dir_def parent_def sep_def

lemmas tiny_defs = tinyOs_def tinyExists_def tinyHasDir_def noSuchFile_def

lemmas main_defs = main_def readFiles_def readLicense_def writeDocs_def called_def fail_def
  parseFlag_def Let_def

section \<open>Lines between fences\<close>

text \<open>
  The lines of a text that is a list of newline-free lines joined by newlines are those
  lines, and the loop of cleanUpContent never puts a newline into a line.
\<close>

lemma lines_of_plain: "nl \<notin> set x \<Longrightarrow> lines_of x = [x]"
  by (induction x) auto

lemma lines_of_append_nl: "nl \<notin> set x \<Longrightarrow> lines_of (x @ nl # s) = x # lines_of s"
  by (induction x) auto

lemma lines_of_Join:
  "L \<noteq> [] \<Longrightarrow> \<forall>l \<in> set L. nl \<notin> set l \<Longrightarrow> lines_of (Join L [nl]) = L"
proof (induction L)
  case Nil
  then show ?case by simp
next
  case (Cons x L)
  show ?case
  proof (cases L)
    case Nil
    with Cons.prems show ?thesis by (simp add: lines_of_plain)
  next
    case (Cons y ys)
    with Cons.prems Cons.IH have "lines_of (Join L [nl]) = L" by simp
    with Cons Cons.prems show ?thesis by (simp add: lines_of_append_nl)
  qed
qed

lemma lines_of_wrapped:
  "L \<noteq> [] \<Longrightarrow> \<forall>l \<in> set L. nl \<notin> set l \<Longrightarrow>
   lines_of ([nl] @ Join L [nl] @ [nl]) = [] # L @ [[]]"
  using lines_of_snoc_nl [of "Join L [nl]"] by (simp add: lines_of_Join)

lemma set_dropCR: "set (dropCR l) \<subseteq> set l"
  by (auto simp: dropCR_def dest: in_set_butlastD)

lemma set_ReplaceAll_single: "set (ReplaceAll s [x] new) \<subseteq> set s \<union> set new"
  by (auto simp: ReplaceAll_single_concat split: if_splits)

lemma cleanUpLines_no_nl:
  assumes "\<forall>l \<in> set ls. nl \<notin> set l"
  shows "\<forall>l \<in> set (cleanUpLines ls). nl \<notin> set l"
proof
  fix l assume "l \<in> set (cleanUpLines ls)"
  then have "l \<in> set (snd (foldl cleanUpLine (False, []) ls))"
    by (simp add: cleanUpLines_def)
  then have "l \<in> set (snd (False, [])) \<or>
      (\<exists>l0 \<in> set ls. l = ReplaceAll l0 [bq] backtickEscape \<or>
                       l = ''  '' @ ReplaceAll l0 [bq] backtickEscape)"
    by (rule foldl_cleanUpLine_sources)
  then obtain l0 where l0: "l0 \<in> set ls"
      "l = ReplaceAll l0 [bq] backtickEscape \<or> l = ''  '' @ ReplaceAll l0 [bq] backtickEscape"
    by auto
  have "nl \<notin> set l0"
    using assms l0(1) by blast
  moreover have "nl \<notin> set backtickEscape"
    by (simp add: backtickEscape_def nl_def bq_def dq_def)
  ultimately have "nl \<notin> set (ReplaceAll l0 [bq] backtickEscape)"
    using set_ReplaceAll_single [of l0 bq backtickEscape] by blast
  then show "nl \<notin> set l"
    using l0(2) by (auto simp: nl_def)
qed


lemma lines_of_replicate_nl: "lines_of (replicate a nl @ s) = replicate a [] @ lines_of s"
  by (induction a) simp_all

lemma lines_of_text_Trim:
  "\<exists>a b. lines_of s = replicate a [] @ lines_of (Trim s [nl]) @ replicate b []"
proof -
  obtain a b where s: "s = replicate a nl @ Trim s [nl] @ replicate b nl"
    using Trim_decompose by blast
  have "lines_of s = lines_of (replicate a nl @ Trim s [nl] @ replicate b nl)"
    by (rule arg_cong [OF s])
  also have "\<dots> = replicate a [] @ lines_of (Trim s [nl]) @ replicate b []"
    by (simp only: lines_of_replicate_nl lines_of_snoc_replicate)
  finally show ?thesis
    by blast
qed

text \<open>
  On the lines \<open>ls\<close> that the scanner yields: a line strictly between a fence line that
  opens a fence and the next fence line is emitted as two spaces followed by the line with
  its backticks escaped, and no emitted line is a fence line.
\<close>

lemma fenced_tokens_indented:
  assumes "ls = scanAll (Trim text [nl])"
    and "i < k" and "k < j" and "j < length ls"
    and "HasPrefix (ls ! i) fence" and "even (fences_before ls i)"
    and "HasPrefix (ls ! j) fence"
    and "\<forall>m. i < m \<and> m < j \<longrightarrow> \<not> HasPrefix (ls ! m) fence"
  shows "emitted_before ls k < length (cleanUpLines ls) \<and>
         cleanUpLines ls ! emitted_before ls k = ''  '' @ ReplaceAll (ls ! k) [bq] backtickEscape \<and>
         (bq \<notin> set (ls ! k) \<longrightarrow> cleanUpLines ls ! emitted_before ls k = ''  '' @ ls ! k) \<and>
         (\<forall>l \<in> set (cleanUpLines ls). \<not> HasPrefix l fence) \<and>
         cleanUpContent text = [nl] @ Join (cleanUpLines ls) [nl] @ [nl] \<and>
         ((\<forall>l \<in> set (lines_of text). length l < MaxScanTokenSize) \<longrightarrow>
            ls = (if Trim text [nl] = [] then [] else map dropCR (lines_of (Trim text [nl]))))"
proof -
  have k: "k < length ls" and nf: "\<not> HasPrefix (ls ! k) fence"
    using assms by auto
  have i: "i < length ls"
    using assms by simp
  have split: "take k ls = take i ls @ ls ! i # take (k - Suc i) (drop (Suc i) ls)"
  proof -
    have "take k ls = take i (take k ls) @ drop i (take k ls)"
      by (simp only: append_take_drop_id)
    also have "take i (take k ls) = take i ls"
      using assms(2) by (simp add: min_def)
    also have "drop i (take k ls) = take (k - i) (drop i ls)"
      by (simp add: drop_take)
    also have "drop i ls = ls ! i # drop (Suc i) ls"
      using i by (simp add: Cons_nth_drop_Suc)
    also have "take (k - i) (ls ! i # drop (Suc i) ls) = ls ! i # take (k - Suc i) (drop (Suc i) ls)"
      using assms(2) by (simp add: take_Cons')
    finally show ?thesis .
  qed
  have none: "filter (\<lambda>l. HasPrefix l fence) (take (k - Suc i) (drop (Suc i) ls)) = []"
  proof -
    have "\<forall>l \<in> set (take (k - Suc i) (drop (Suc i) ls)). \<not> HasPrefix l fence"
    proof
      fix l assume "l \<in> set (take (k - Suc i) (drop (Suc i) ls))"
      then obtain n where n: "n < k - Suc i" "n < length (drop (Suc i) ls)"
          "l = drop (Suc i) ls ! n"
        by (auto simp: in_set_conv_nth)
      then have "l = ls ! (Suc i + n)"
        by simp
      moreover have "i < Suc i + n \<and> Suc i + n < j"
        using n(1) assms(3) by simp
      ultimately show "\<not> HasPrefix l fence"
        using assms(8) by blast
    qed
    then show ?thesis
      by (simp add: filter_empty_conv)
  qed
  have "fences_before ls k = Suc (fences_before ls i)"
    unfolding fences_before_def split using assms(5) none by simp
  then have odd: "odd (fences_before ls k)"
    using assms(6) by simp
  from cleanUp_invariant [of ls] k nf
  have len: "length (cleanUpLines ls) = emitted_before ls (length ls)"
    and nth: "cleanUpLines ls ! emitted_before ls k = emitted_line ls k"
    by (simp_all add: cleanUpLines_def)
  have lt: "emitted_before ls k < length (cleanUpLines ls)"
  proof -
    have "take (Suc k) ls = take k ls @ [ls ! k]"
      using k by (simp add: take_Suc_conv_app_nth)
    then have "emitted_before ls (Suc k) = Suc (emitted_before ls k)"
      using nf by (simp add: emitted_before_def)
    moreover have "emitted_before ls (Suc k) \<le> emitted_before ls (length ls)"
    proof -
      have "take (length ls) ls = take (Suc k) ls @ drop (Suc k) ls"
        by simp
      then show ?thesis
        unfolding emitted_before_def by (metis filter_append length_append le_add1)
    qed
    ultimately show ?thesis
      using len by simp
  qed
  have line: "cleanUpLines ls ! emitted_before ls k = ''  '' @ ReplaceAll (ls ! k) [bq] backtickEscape"
    using nth odd by (simp add: emitted_line_def)
  have nofence: "\<forall>l \<in> set (cleanUpLines ls). \<not> HasPrefix l fence"
  proof
    fix l assume "l \<in> set (cleanUpLines ls)"
    then have "escapedOnly l"
      using foldl_cleanUpLine_escapedOnly [of "(False, [])" ls] by (simp add: cleanUpLines_def)
    show "\<not> HasPrefix l fence"
    proof
      assume "HasPrefix l fence"
      then have l: "l = fence @ drop 3 l"
        by (metis HasPrefix_def append_take_drop_id fence_def length_Cons list.size(3)
            numeral_3_eq_3)
      have "\<not> escapedOnly (fence @ drop 3 l)"
        by (subst escapedOnly.simps)
           (simp add: fence_def HasPrefix_def backtickEscape_def bq_def dq_def)
      with l \<open>escapedOnly l\<close> show False
        by simp
    qed
  qed
  have lines: "ls = (if Trim text [nl] = [] then [] else map dropCR (lines_of (Trim text [nl])))"
    if short: "\<forall>l \<in> set (lines_of text). length l < MaxScanTokenSize"
  proof (cases "Trim text [nl] = []")
    case True
    with assms(1) show ?thesis by simp
  next
    case False
    then have "last (Trim text [nl]) \<noteq> nl"
      using Trim_ends [of "text"] by simp
    moreover have "\<forall>l \<in> set (lines_of (Trim text [nl])). length l < MaxScanTokenSize"
      using short lines_of_Trim [of "text"] by blast
    ultimately have "scanAll (Trim text [nl]) = map dropCR (lines_of (Trim text [nl]))"
      using False by (intro scanAll_lines_of) simp_all
    with False assms(1) show ?thesis by simp
  qed
  have "cleanUpContent text = [nl] @ Join (cleanUpLines ls) [nl] @ [nl]"
    using assms(1) by (simp add: cleanUpContent_def)
  moreover have "bq \<notin> set (ls ! k) \<longrightarrow> cleanUpLines ls ! emitted_before ls k = ''  '' @ ls ! k"
    using line by (simp add: ReplaceAll_absent)
  ultimately show ?thesis
    using lt line nofence lines by blast
qed

section \<open>The claims\<close>

subsection \<open>C1\<close>

text \<open>
  C1, as the code has it. In a well-formed document, take a visible region for the field
  \<open>f\<close> with content \<open>c\<close> such that no region processed after it targets \<open>f\<close>: no
  region after it in the text, visible or hidden, and no hidden region before it. Then
  parse stores the trimmed content (Short) or the cleaned content (Long, Examples) in
  field \<open>f\<close>. Neither the opening marker of the region nor the closing marker occurs in
  the trimmed or in the cleaned content.
\<close>

theorem visible_region_extracted:
  assumes "wfDoc (before @ (g, Visible f c) # after) tail"
    and "\<forall>gr \<in> set after. regionField (snd gr) \<noteq> f"
    and "\<forall>gr \<in> set before. isHidden (snd gr) \<longrightarrow> regionField (snd gr) \<noteq> f"
    and "v = render (before @ (g, Visible f c) # after) tail"
  shows "(f = ''Short'' \<longrightarrow> Short (parse T path v) = TrimSpace c) \<and>
         (f = ''Long'' \<longrightarrow> Long (parse T path v) = cleanUpContent c) \<and>
         (f = ''Examples'' \<longrightarrow> Examples (parse T path v) = cleanUpContent c) \<and>
         \<not> Contains (TrimSpace c) (marker @ '':'' @ f @ ''-->'') \<and>
         \<not> Contains (TrimSpace c) (marker @ ''-->'') \<and>
         \<not> Contains (cleanUpContent c) (marker @ '':'' @ f @ ''-->'') \<and>
         \<not> Contains (cleanUpContent c) (marker @ ''-->'')"
proof -
  have "parseMatches v = visibleGroups (before @ (g, Visible f c) # after) @
      hiddenGroups (before @ (g, Visible f c) # after)"
    unfolding assms(4) using assms(1) by (rule parseMatches_wf)
  then have last: "lastContent f (parseMatches v) = Some c"
    using lastContent_region [OF assms(2,3)] by simp
  have "wfRegion (Visible f c)"
    using assms(1) by (simp add: wfDoc_def)
  then have c: "\<not> Contains c marker"
    by simp
  show ?thesis
    using last Contains_longer [OF TrimSpace_no_marker [OF c]]
      Contains_longer [OF cleanUpContent_no_marker [OF c]]
    by (auto simp: parse_fields)
qed

theorem visible_region_extracted_witness:
  "Short (parse id ''guides/setup.md''
     (''<!--mdtogo:Short-->'' @ [nl] @ ''One-line summary'' @ [nl] @ ''<!--mdtogo-->'' @ [nl] @
      ''<!--mdtogo:Long'' @ [nl] @ ''Detailed text'' @ [nl] @ ''-->'' @ [nl])) = ''One-line summary''"
proof -
  let ?c = "[nl] @ ''One-line summary'' @ [nl]"
  let ?after = "[([nl], Hidden ''Long'' nl (''Detailed text'' @ [nl]))]"
  have wf: "wfDoc ([] @ ([], Visible ''Short'' ?c) # ?after) [nl]"
    by (simp add: wfDoc_def fieldNames_def reSpace_def marker_def HasPrefix_def nl_def)
  have after: "\<forall>gr \<in> set ?after. regionField (snd gr) \<noteq> ''Short''"
    by simp
  have before: "\<forall>gr \<in> set []. isHidden (snd gr) \<longrightarrow> regionField (snd gr) \<noteq> ''Short''"
    by simp
  have "Short (parse id ''guides/setup.md'' (render ([] @ ([], Visible ''Short'' ?c) # ?after) [nl])) =
      TrimSpace ?c"
    using visible_region_extracted [OF wf after before refl, of id "''guides/setup.md''"] by simp
  moreover have "TrimSpace ?c = ''One-line summary''"
    by (simp add: trim_defs HasPrefix_def nl_def)
  ultimately show ?thesis
    by (simp add: marker_def)
qed

text \<open>
  C1 as stated fails on a text with two regions for one field: the field holds the content
  of the region processed last, not that of every well-formed region for the field.
\<close>

theorem later_region_overwrites_field:
  "Short (parse id ''docs/a.md''
     (''<!--mdtogo:Short-->a<!--mdtogo-->'' @ ''<!--mdtogo:Short-->b<!--mdtogo-->'')) = ''b'' \<and>
   TrimSpace ''a'' = ''a''"
  by (simp add: parse_fields lastContent_def match_defs trim_defs)

subsection \<open>C2\<close>

text \<open>
  C2, as the code has it. Let every line of the text be shorter than the scanner's token
  limit, and let \<open>ls\<close> be the lines of the text without its leading and trailing newlines,
  each without a final carriage return (these are the lines of the text apart from empty
  lines at its start and end). When line \<open>i\<close> opens a fence (it is a fence line preceded by
  an even number of fence lines), line \<open>j\<close> is the fence line that closes it (the next
  fence line), and line \<open>k\<close> lies strictly between them, then the output of cleanUpContent
  has, after its empty first line and the lines emitted before line \<open>k\<close>, the line made of
  two spaces followed by line \<open>k\<close> with its backticks escaped (line \<open>k\<close> itself when it has no
  backtick). No line of the output is a fence line. This holds for every such text, so in
  particular for one with an even number of fence lines.
\<close>

theorem fenced_text_lines_indented:
  assumes "\<forall>l \<in> set (lines_of text). length l < MaxScanTokenSize"
    and "ls = map dropCR (lines_of (Trim text [nl]))"
    and "i < k" and "k < j" and "j < length ls"
    and "HasPrefix (ls ! i) fence" and "even (fences_before ls i)"
    and "HasPrefix (ls ! j) fence"
    and "\<forall>m. i < m \<and> m < j \<longrightarrow> \<not> HasPrefix (ls ! m) fence"
  shows "lines_of (cleanUpContent text) = [] # cleanUpLines ls @ [[]] \<and>
         Suc (emitted_before ls k) < length (lines_of (cleanUpContent text)) \<and>
         lines_of (cleanUpContent text) ! Suc (emitted_before ls k) =
           ''  '' @ ReplaceAll (ls ! k) [bq] backtickEscape \<and>
         (bq \<notin> set (ls ! k) \<longrightarrow>
            lines_of (cleanUpContent text) ! Suc (emitted_before ls k) = ''  '' @ ls ! k) \<and>
         (\<forall>l \<in> set (lines_of (cleanUpContent text)). \<not> HasPrefix l fence) \<and>
         (\<exists>a b. map dropCR (lines_of text) = replicate a [] @ ls @ replicate b [])"
proof -
  let ?t = "Trim text [nl]"
  let ?L = "cleanUpLines ls"
  have ne: "?t \<noteq> []"
  proof
    assume "?t = []"
    with assms(2) have "length ls = 1" by simp
    with assms(3,4,5) show False by simp
  qed
  then have "last ?t \<noteq> nl"
    using Trim_ends [of "text"] by simp
  moreover have "\<forall>l \<in> set (lines_of ?t). length l < MaxScanTokenSize"
    using assms(1) lines_of_Trim [of "text"] by blast
  ultimately have scan: "ls = scanAll ?t"
    using ne assms(2) scanAll_lines_of [of ?t] by simp
  note tok = fenced_tokens_indented [OF scan assms(3-9)]
  have lt: "emitted_before ls k < length ?L"
    and line: "?L ! emitted_before ls k = ''  '' @ ReplaceAll (ls ! k) [bq] backtickEscape"
    and nofence: "\<forall>l \<in> set ?L. \<not> HasPrefix l fence"
    and out: "cleanUpContent text = [nl] @ Join ?L [nl] @ [nl]"
    using tok by blast+
  have "\<forall>l \<in> set ls. nl \<notin> set l"
    unfolding assms(2) using lines_of_no_nl set_dropCR by fastforce
  then have nonl: "\<forall>l \<in> set ?L. nl \<notin> set l"
    by (rule cleanUpLines_no_nl)
  have Lne: "?L \<noteq> []"
    using lt by auto
  have all: "lines_of (cleanUpContent text) = [] # ?L @ [[]]"
    unfolding out using Lne nonl by (rule lines_of_wrapped)
  have nth: "lines_of (cleanUpContent text) ! Suc (emitted_before ls k) = ?L ! emitted_before ls k"
    unfolding all using lt by (simp add: nth_append)
  have len: "Suc (emitted_before ls k) < length (lines_of (cleanUpContent text))"
    unfolding all using lt by simp
  have nf: "\<forall>l \<in> set (lines_of (cleanUpContent text)). \<not> HasPrefix l fence"
    unfolding all using nofence by (auto simp: HasPrefix_def fence_def)
  have plain: "bq \<notin> set (ls ! k) \<longrightarrow>
      lines_of (cleanUpContent text) ! Suc (emitted_before ls k) = ''  '' @ ls ! k"
    using nth line by (simp add: ReplaceAll_absent)
  obtain a b where "lines_of text = replicate a [] @ lines_of ?t @ replicate b []"
    using lines_of_text_Trim [of "text"] by blast
  then have "map dropCR (lines_of text) = replicate a [] @ ls @ replicate b []"
    unfolding assms(2) by (simp add: dropCR_def)
  then have link: "\<exists>a b. map dropCR (lines_of text) = replicate a [] @ ls @ replicate b []"
    by blast
  show ?thesis
    using all len nth line plain nf link by simp
qed

theorem fenced_text_lines_indented_witness:
  "cleanUpContent (''a'' @ [nl] @ fence @ ''go'' @ [nl] @ ''x := `y`'' @ [cr, nl] @ fence @ [nl]) =
     [nl] @ ''a'' @ [nl] @ ''  x := '' @ backtickEscape @ ''y'' @ backtickEscape @ [nl] \<and>
   lines_of (cleanUpContent (''a'' @ [nl] @ fence @ ''go'' @ [nl] @ ''x := `y`'' @ [cr, nl] @ fence @ [nl])) ! 2 =
     ''  x := '' @ backtickEscape @ ''y'' @ backtickEscape"
proof -
  let ?text = "''a'' @ [nl] @ fence @ ''go'' @ [nl] @ ''x := `y`'' @ [cr, nl] @ fence @ [nl]"
  let ?ls = "[''a'', fence @ ''go'', ''x := `y`'', fence]"
  have trim: "Trim ?text [nl] = ''a'' @ [nl] @ fence @ ''go'' @ [nl] @ ''x := `y`'' @ [cr, nl] @ fence"
    by (simp add: Trim_def TrimLeft_def TrimRight_def nl_def cr_def fence_def bq_def)
  have short: "\<forall>l \<in> set (lines_of ?text). length l < MaxScanTokenSize"
    by (simp add: nl_def cr_def fence_def bq_def MaxScanTokenSize_def)
  have ls: "?ls = map dropCR (lines_of (Trim ?text [nl]))"
    unfolding trim by (simp add: dropCR_def nl_def cr_def fence_def bq_def)
  have between: "\<forall>m. (1::nat) < m \<and> m < 3 \<longrightarrow> \<not> HasPrefix (?ls ! m) fence"
  proof (intro allI impI)
    fix m :: nat assume "1 < m \<and> m < 3"
    then have "m = 2" by simp
    then show "\<not> HasPrefix (?ls ! m) fence"
      by (simp add: HasPrefix_def fence_def bq_def)
  qed
  have opens: "HasPrefix (?ls ! 1) fence" "even (fences_before ?ls 1)"
    by (simp_all add: HasPrefix_def fence_def fences_before_def bq_def)
  have closes: "HasPrefix (?ls ! 3) fence"
    by (simp add: HasPrefix_def fence_def)
  have order: "(1::nat) < 2" "(2::nat) < 3" "3 < length ?ls"
    by simp_all
  have eb: "emitted_before ?ls 2 = 1"
    by (simp add: emitted_before_def HasPrefix_def fence_def bq_def numeral_2_eq_2)
  have "lines_of (cleanUpContent ?text) ! Suc (emitted_before ?ls 2) =
      ''  '' @ ReplaceAll (?ls ! 2) [bq] backtickEscape"
    using fenced_text_lines_indented [OF short ls order opens closes between] by blast
  then have line: "lines_of (cleanUpContent ?text) ! 2 =
      ''  x := '' @ backtickEscape @ ''y'' @ backtickEscape"
    unfolding eb by (simp add: ReplaceAll_Cons_single bq_def numeral_2_eq_2)
  have "cleanUpContent ?text =
      [nl] @ ''a'' @ [nl] @ ''  x := '' @ backtickEscape @ ''y'' @ backtickEscape @ [nl]"
    by (simp add: eval_defs nl_def cr_def bq_def dq_def fence_def backtickEscape_def)
  with line show ?thesis
    by simp
qed

text \<open>
  C2 as stated fails on a text with a line of \<open>MaxScanTokenSize\<close> bytes or more: the scanner
  stops at that line and its error is never read, so a line after it is not in the output
  although it lies between an opening and a closing fence line.
\<close>

theorem long_line_hides_fenced_lines:
  "lines_of (fence @ [nl] @ replicate MaxScanTokenSize CHR ''a'' @ [nl] @ ''b'' @ [nl] @ fence)
     = [fence, replicate MaxScanTokenSize CHR ''a'', ''b'', fence] \<and>
   cleanUpContent (fence @ [nl] @ replicate MaxScanTokenSize CHR ''a'' @ [nl] @ ''b'' @ [nl] @ fence)
     = [nl, nl] \<and>
   ''  b'' \<notin> set (lines_of (cleanUpContent
     (fence @ [nl] @ replicate MaxScanTokenSize CHR ''a'' @ [nl] @ ''b'' @ [nl] @ fence)))"
proof -
  let ?long = "replicate MaxScanTokenSize CHR ''a''"
  let ?rest = "?long @ [nl] @ ''b'' @ [nl] @ fence"
  let ?text = "fence @ [nl] @ ?rest"
  have f: "nl \<notin> set fence" and l: "nl \<notin> set ?long" and b: "nl \<notin> set ''b''"
    by (simp_all add: fence_def bq_def nl_def)
  have "lines_of (''b'' @ nl # fence) = [''b'', fence]"
    using lines_of_append_nl [OF b, of fence] lines_of_plain [OF f] by simp
  then have "lines_of (?long @ nl # ''b'' @ nl # fence) = [?long, ''b'', fence]"
    using lines_of_append_nl [OF l, of "''b'' @ nl # fence"] by simp
  then have "lines_of (fence @ nl # ?long @ nl # ''b'' @ nl # fence) = [fence, ?long, ''b'', fence]"
    using lines_of_append_nl [OF f, of "?long @ nl # ''b'' @ nl # fence"] by simp
  then have lines: "lines_of ?text = [fence, ?long, ''b'', fence]"
    by simp
  have "hd ?text \<noteq> nl" "last ?text \<noteq> nl"
    by (simp_all add: fence_def bq_def nl_def)
  then have trim: "Trim ?text [nl] = ?text"
    by (intro Trim_fixed) simp
  have "take MaxScanTokenSize ?rest = ?long"
    by simp
  then have "scanAll ?rest = []"
    by (intro scanAll_too_long) (simp_all add: nl_def)
  moreover have "scanAll (fence @ nl # ?rest) = dropCR fence # scanAll ?rest"
    by (rule scanAll_line) (simp_all add: fence_def bq_def nl_def MaxScanTokenSize_def)
  ultimately have "scanAll ?text = [fence]"
    by (simp add: dropCR_def fence_def bq_def cr_def)
  then have out: "cleanUpContent ?text = [nl, nl]"
    unfolding cleanUpContent_def trim
    by (simp add: cleanUpLines_def cleanUpLine_def HasPrefix_def)
  have "''  b'' \<notin> set (lines_of (cleanUpContent ?text))"
    unfolding out by (simp add: nl_def)
  with lines out show ?thesis
    by simp
qed

subsection \<open>C3\<close>



subsection \<open>C4\<close>

text \<open>
  C4. For every text, each field of the record that parse returns is decided by the last
  match for the field's name in the list of matches, which holds the matches of the
  visible form in text order followed by those of the hidden form in text order: the
  field is empty when there is no such match, and otherwise the trimmed (Short) or
  cleaned (Long, Examples) content of that match alone. On a well-formed document the
  matches are its visible regions followed by its hidden regions. In particular, for two
  well-formed visible regions that both target Long, Long is the cleaned content of the
  second one.
\<close>

theorem last_processed_region_wins:
  "Short (parse T path v) =
     (case lastContent ''Short'' (parseMatches v) of None \<Rightarrow> [] | Some c \<Rightarrow> TrimSpace c) \<and>
   Long (parse T path v) =
     (case lastContent ''Long'' (parseMatches v) of None \<Rightarrow> [] | Some c \<Rightarrow> cleanUpContent c) \<and>
   Examples (parse T path v) =
     (case lastContent ''Examples'' (parseMatches v) of None \<Rightarrow> [] | Some c \<Rightarrow> cleanUpContent c) \<and>
   parseMatches v = FindAllStringSubmatch mdtogoTag v @ FindAllStringSubmatch mdtogoInternalTag v \<and>
   (wfDoc rs tail \<longrightarrow> parseMatches (render rs tail) = visibleGroups rs @ hiddenGroups rs) \<and>
   (wfDoc [(g0, Visible ''Long'' c1), (g1, Visible ''Long'' c2)] g2 \<longrightarrow>
      Long (parse T path (g0 @ renderRegion (Visible ''Long'' c1) @ g1 @
                          renderRegion (Visible ''Long'' c2) @ g2)) = cleanUpContent c2)"
proof -
  have "Long (parse T path (g0 @ renderRegion (Visible ''Long'' c1) @ g1 @
                          renderRegion (Visible ''Long'' c2) @ g2)) = cleanUpContent c2"
    if wf: "wfDoc [(g0, Visible ''Long'' c1), (g1, Visible ''Long'' c2)] g2"
  proof -
    have "parseMatches (render [(g0, Visible ''Long'' c1), (g1, Visible ''Long'' c2)] g2) =
        [(''Long'', c1), (''Long'', c2)]"
      using parseMatches_wf [OF wf] by simp
    then show ?thesis
      by (simp add: parse_fields(2) lastContent_def)
  qed
  then show ?thesis
    using parse_fields [of T path v] parseMatches_wf [of rs tail]
    by (simp add: parseMatches_def)
qed

theorem last_processed_region_wins_witness:
  "Long (parse id ''docs/a.md''
     (''# Title'' @ [nl] @ ''<!--mdtogo:Long-->first<!--mdtogo-->'' @ [nl] @
      ''<!--mdtogo:Long-->second<!--mdtogo-->'' @ [nl])) = [nl] @ ''second'' @ [nl]"
proof -
  let ?g0 = "''# Title'' @ [nl]"
  have wf: "wfDoc [(?g0, Visible ''Long'' ''first''), ([nl], Visible ''Long'' ''second'')] [nl]"
    by (simp add: wfDoc_def fieldNames_def marker_def HasPrefix_def nl_def)
  have "wfDoc [(?g0, Visible ''Long'' ''first''), ([nl], Visible ''Long'' ''second'')] [nl] \<longrightarrow>
      Long (parse id ''docs/a.md'' (?g0 @ renderRegion (Visible ''Long'' ''first'') @ [nl] @
                          renderRegion (Visible ''Long'' ''second'') @ [nl])) = cleanUpContent ''second''"
    using last_processed_region_wins [of id "''docs/a.md''" "[]" "[]" "[]" ?g0
        "''first''" "[nl]" "''second''" "[nl]"]
    by blast
  with wf have "Long (parse id ''docs/a.md'' (?g0 @ renderRegion (Visible ''Long'' ''first'') @ [nl] @
                          renderRegion (Visible ''Long'' ''second'') @ [nl])) = cleanUpContent ''second''"
    by blast
  moreover have "cleanUpContent ''second'' = [nl] @ ''second'' @ [nl]"
    by (simp add: eval_defs nl_def cr_def bq_def dq_def fence_def backtickEscape_def)
  ultimately show ?thesis
    by (simp add: marker_def)
qed

subsection \<open>C5\<close>

text \<open>
  C5, as the code has it. \<open>strings.Trim(text, "\n")\<close> removes newline bytes and nothing
  else: the input is the trimmed text between a run of newlines and another run of
  newlines, the trimmed text neither starts nor ends with a newline, and putting more
  newlines around the input does not change the result. The result is the emitted lines
  joined by newlines, between one leading and one trailing newline.
\<close>

theorem newlines_trimmed_lines_wrapped:
  "(\<exists>a b. text = replicate a nl @ Trim text [nl] @ replicate b nl) \<and>
   (Trim text [nl] = [] \<or> (hd (Trim text [nl]) \<noteq> nl \<and> last (Trim text [nl]) \<noteq> nl)) \<and>
   cleanUpContent (replicate a nl @ text @ replicate b nl) = cleanUpContent text \<and>
   cleanUpContent text = [nl] @ Join (cleanUpLines (scanAll (Trim text [nl]))) [nl] @ [nl]"
  using Trim_decompose [of "text"] Trim_ends [of "text"]
  by (simp add: cleanUpContent_def Trim_replicate)

theorem newlines_trimmed_lines_wrapped_witness:
  "cleanUpContent ([nl, nl] @ ''a'' @ [nl] @ ''b'' @ [nl, nl, nl]) = [nl] @ ''a'' @ [nl] @ ''b'' @ [nl] \<and>
   cleanUpContent (''a'' @ [nl] @ ''b'') = [nl] @ ''a'' @ [nl] @ ''b'' @ [nl]"
proof -
  have "cleanUpContent (''a'' @ [nl] @ ''b'') = [nl] @ ''a'' @ [nl] @ ''b'' @ [nl]"
    by (simp add: eval_defs nl_def cr_def bq_def dq_def fence_def backtickEscape_def)
  then show ?thesis
    using newlines_trimmed_lines_wrapped [of "''a'' @ [nl] @ ''b''" 2 3]
    by (simp add: numeral_2_eq_2 numeral_3_eq_3)
qed

text \<open>
  C5 as stated fails where a leading line is blank without being empty before its newline
  byte. For a text that starts with a carriage return and a newline, the first line the
  scanner yields is the empty line; it is processed and emitted.
\<close>

theorem leading_blank_line_kept:
  "scanAll (Trim ([cr, nl] @ ''foo'') [nl]) = [[], ''foo''] \<and>
   cleanUpContent ([cr, nl] @ ''foo'') = [nl, nl] @ ''foo'' @ [nl]"
  by (simp add: eval_defs nl_def cr_def bq_def dq_def fence_def backtickEscape_def)

lemma leading_blank_line_of_spaces_kept:
  "cleanUpContent (''  '' @ [nl] @ ''foo'') = [nl] @ ''  '' @ [nl] @ ''foo'' @ [nl]"
  by (simp add: eval_defs nl_def cr_def bq_def dq_def fence_def backtickEscape_def)

subsection \<open>C6\<close>

text \<open>
  C6, as the code has it. For a text without backticks (so without fence lines) whose
  lines are shorter than the scanner's token limit and do not end in a carriage return,
  the result is the text without its leading and trailing newlines, between one leading
  and one trailing newline, and cleanUpContent maps that result to itself.
\<close>

theorem plain_text_wrapped_and_fixed:
  assumes "bq \<notin> set text"
    and "\<forall>l \<in> set (lines_of text). length l < MaxScanTokenSize \<and> (l \<noteq> [] \<longrightarrow> last l \<noteq> cr)"
  shows "cleanUpContent text = [nl] @ Trim text [nl] @ [nl] \<and>
         cleanUpContent (cleanUpContent text) = cleanUpContent text"
proof -
  let ?t = "Trim text [nl]"
  have lines: "\<forall>l \<in> set (lines_of ?t). length l < MaxScanTokenSize \<and> dropCR l = l"
    using assms(2) lines_of_Trim [of "text"] by (auto simp: dropCR_def)
  have nobq: "\<forall>l \<in> set (lines_of ?t). bq \<notin> set l"
    using assms(1) set_Trim [of "text"] lines_of_sub [of _ "?t"] by blast
  have J: "Join (cleanUpLines (scanAll ?t)) [nl] = ?t"
  proof (cases "?t = []")
    case True
    then show ?thesis by (simp add: cleanUpLines_def)
  next
    case False
    then have "last ?t \<noteq> nl"
      using Trim_ends [of "text"] by simp
    with False lines have "scanAll ?t = map dropCR (lines_of ?t)"
      by (intro scanAll_lines_of) simp_all
    also have "\<dots> = lines_of ?t"
      using lines by (simp add: map_idI)
    finally show ?thesis
      using nobq by (simp add: cleanUpLines_plain Join_lines_of)
  qed
  then have first: "cleanUpContent text = [nl] @ ?t @ [nl]"
    by (simp add: cleanUpContent_def)
  have "Trim ([nl] @ ?t @ [nl]) [nl] = ?t"
    using Trim_fixed [OF Trim_ends [of "text"]] by (simp only: Trim_wrapped)
  then have "cleanUpContent ([nl] @ ?t @ [nl]) = [nl] @ Join (cleanUpLines (scanAll ?t)) [nl] @ [nl]"
    by (simp only: cleanUpContent_def)
  with J first show ?thesis
    by simp
qed

theorem plain_text_wrapped_and_fixed_witness:
  "cleanUpContent ([nl] @ ''a'' @ [nl, nl] @ ''b c'' @ [nl, nl]) = [nl] @ ''a'' @ [nl, nl] @ ''b c'' @ [nl]"
proof -
  let ?text = "[nl] @ ''a'' @ [nl, nl] @ ''b c'' @ [nl, nl]"
  have l: "lines_of ?text = [[], ''a'', [], ''b c'', [], []]"
    by (simp add: nl_def)
  have "bq \<notin> set ?text"
    by (simp add: bq_def nl_def)
  moreover have "\<forall>l \<in> set (lines_of ?text). length l < MaxScanTokenSize \<and> (l \<noteq> [] \<longrightarrow> last l \<noteq> cr)"
    unfolding l by (simp add: MaxScanTokenSize_def cr_def)
  ultimately have "cleanUpContent ?text = [nl] @ Trim ?text [nl] @ [nl]"
    using plain_text_wrapped_and_fixed [of ?text] by blast
  then show ?thesis
    by (simp add: Trim_def TrimLeft_def TrimRight_def nl_def)
qed


text \<open>
  C6 as stated fails on a text with a carriage return before a newline: the scanner drops
  the carriage return, so the result is not the input between two newlines.
\<close>

theorem carriage_return_dropped:
  "bq \<notin> set (''a'' @ [cr, nl] @ ''b'') \<and>
   cleanUpContent (''a'' @ [cr, nl] @ ''b'') = [nl] @ ''a'' @ [nl] @ ''b'' @ [nl] \<and>
   cleanUpContent (''a'' @ [cr, nl] @ ''b'') \<noteq> [nl] @ Trim (''a'' @ [cr, nl] @ ''b'') [nl] @ [nl]"
  by (simp add: eval_defs nl_def cr_def bq_def dq_def fence_def backtickEscape_def)

text \<open>
  A line of \<open>MaxScanTokenSize\<close> bytes stops the scanner: nothing is emitted for it or for
  any line after it.
\<close>

lemma line_too_long_stops_scanner: "cleanUpContent (replicate MaxScanTokenSize CHR ''a'') = [nl, nl]"
proof -
  have ne: "replicate MaxScanTokenSize CHR ''a'' \<noteq> []"
    by (simp add: MaxScanTokenSize_def)
  have "Trim (replicate MaxScanTokenSize CHR ''a'') [nl] = replicate MaxScanTokenSize CHR ''a''"
    using ne by (intro Trim_fixed) (simp add: nl_def hd_replicate last_replicate)
  moreover have "scanAll (replicate MaxScanTokenSize CHR ''a'') = []"
    by (rule scanAll_too_long) (simp_all add: nl_def)
  ultimately show ?thesis
    by (simp add: cleanUpContent_def cleanUpLines_def)
qed

subsection \<open>C7\<close>

text \<open>
  C7. The declarations that \<open>String\<close> joins are those of the fields Short, Long and
  Examples whose value is not empty, in this order, each named by the record's Name
  followed by the field's name; an empty field has no declaration. The result is the
  declarations joined by newlines, followed by a newline.
\<close>

theorem String_declares_nonempty_fields:
  "StringParts d =
     map (\<lambda>(sfx, val). varDecl (Name d) sfx val)
       (filter (\<lambda>(sfx, val). val \<noteq> [])
          [(''Short'', Short d), (''Long'', Long d), (''Examples'', Examples d)]) \<and>
   String d = Join (StringParts d) [nl] @ [nl] \<and>
   length (StringParts d) = length (filter (\<lambda>val. val \<noteq> []) [Short d, Long d, Examples d])"
  by (simp add: StringParts_def String_def varDecl_def Let_def)

theorem String_declares_nonempty_fields_witness:
  "String \<lparr>Name = ''Guides'', Short = ''One-line summary'', Long = [], Examples = [nl] @ ''ls'' @ [nl]\<rparr> =
     ''var GuidesShort = `One-line summary`'' @ [nl] @
     ''var GuidesExamples = `'' @ [nl] @ ''ls'' @ [nl] @ ''`'' @ [nl]"
  using String_declares_nonempty_fields [of "\<lparr>Name = ''Guides'', Short = ''One-line summary'', Long = [], Examples = [nl] @ ''ls'' @ [nl]\<rparr>"]
  by (simp add: varDecl_def)

subsection \<open>C8\<close>

text \<open>
  C8, as the code has it. The test is on the number of all arguments, the program name and
  the flags among them. With fewer than three, the usage message goes to standard error
  and the exit code is 1, no call to the file system is made and the file system is left
  as it is. With three or more, whatever they are, the program goes on to read the
  directory named by the second one.
\<close>

theorem usage_when_fewer_than_three_arguments:
  "(length args < 3 \<longrightarrow>
      main os args fs = (1, \<lparr>files = fs, calls = [], errOut = usage\<rparr>)) \<and>
   (3 \<le> length args \<longrightarrow> calls (snd (main os args fs)) \<noteq> [])"
  using main_calls [of args os fs]
  by (simp add: main_def fail_def split: prod.splits)

theorem usage_when_fewer_than_three_arguments_witness:
  "main tinyOs [''mdtogo'', ''docs''] \<lparr>dirs = [''docs''], regs = []\<rparr> =
     (1, \<lparr>files = \<lparr>dirs = [''docs''], regs = []\<rparr>, calls = [], errOut = usage\<rparr>) \<and>
   calls (snd (main tinyOs [''mdtogo'', ''docs'', ''out''] \<lparr>dirs = [''docs''], regs = []\<rparr>)) \<noteq> []"
  using usage_when_fewer_than_three_arguments
      [of "[''mdtogo'', ''docs'']" tinyOs "\<lparr>dirs = [''docs''], regs = []\<rparr>"]
    usage_when_fewer_than_three_arguments
      [of "[''mdtogo'', ''docs'', ''out'']" tinyOs "\<lparr>dirs = [''docs''], regs = []\<rparr>"]
  by simp

text \<open>
  C8 as stated fails when a flag makes up the count. With the one positional argument
  \<open>docs\<close> and the flag \<open>--recursive=true\<close> there are three arguments: no usage message is
  written, the flag is taken as the destination directory, the directory is made and the
  file is written into it, and the exit code is 0.
\<close>

theorem flag_taken_as_destination:
  "main tinyOs [''mdtogo'', ''docs'', ''--recursive=true''] \<lparr>dirs = [''docs''], regs = []\<rparr> =
     (0, \<lparr>files = \<lparr>dirs = [''docs'', ''--recursive=true''],
                     regs = [(''--recursive=true/docs.go'',
                              defaultLicense @ [nl] @ generatedHeader ''--recursive=true'')]\<rparr>,
           calls = [CallWalk ''docs'', CallStat ''--recursive=true'', CallMkdir ''--recursive=true'',
                    CallWriteFile ''--recursive=true/docs.go''
                      (defaultLicense @ [nl] @ generatedHeader ''--recursive=true'')],
           errOut = []\<rparr>)"
  by (simp add: main_defs tiny_defs path_defs HasPrefix_def ReplaceAll.simps)

subsection \<open>C9\<close>

text \<open>
  C9, as the code has it. Let the arguments be at least three and all reads succeed: the
  source directory, every collected file and the license. When \<open>os.Stat\<close> fails for the
  destination, the last three calls of the run are that \<open>Stat\<close>, one \<open>Mkdir\<close> of the
  destination and the \<open>WriteFile\<close> of \<open>docs.go\<close> in it, and nothing is reported for
  \<open>Mkdir\<close>. The run ends as the write does: with exit code 0 and the file system the write
  leaves when it succeeds, and with exit code 1 and the error of the write on standard
  error when it fails.
\<close>

theorem missing_destination_mkdir_then_write:
  assumes "3 \<le> length args"
    and "readFiles os fs (fst (foldl parseFlag (False, []) args)) (args ! 1) = Inr paths"
    and "fst (readDocs os paths [] \<lparr>files = fs, calls = [], errOut = []\<rparr>) = Inr docs"
    and "fst (readLicense os (snd (foldl parseFlag (False, []) args))
               \<lparr>files = fs, calls = [], errOut = []\<rparr>) = Inr license"
    and "\<not> os_Stat os fs (args ! 2)"
    and "path = filepath_Join [args ! 2, ''docs.go'']"
    and "content = Join ([license, generatedHeader (args ! 2)] @ map String docs) [nl]"
  shows "(case os_WriteFile os (os_Mkdir os fs (args ! 2)) path content of
            Inl err \<Rightarrow> fst (main os args fs) = 1 \<and>
                       errOut (snd (main os args fs)) = err @ [nl] \<and>
                       files (snd (main os args fs)) = os_Mkdir os fs (args ! 2)
          | Inr fs' \<Rightarrow> fst (main os args fs) = 0 \<and>
                       errOut (snd (main os args fs)) = [] \<and>
                       files (snd (main os args fs)) = fs') \<and>
         (\<exists>cs. calls (snd (main os args fs)) =
                 cs @ [CallStat (args ! 2), CallMkdir (args ! 2), CallWriteFile path content])"
proof -
  obtain recursive licenseFile where flags: "foldl parseFlag (False, []) args = (recursive, licenseFile)"
    by (cases "foldl parseFlag (False, []) args")
  let ?w0 = "\<lparr>files = fs, calls = [], errOut = []\<rparr>"
  let ?w1 = "called (if recursive then CallWalk (args ! 1) else CallReadDir (args ! 1)) ?w0"
  have a2: "readFiles os fs recursive (args ! 1) = Inr paths"
    using assms(2) flags by simp
  have n3: "(length args < 3) = False"
    using assms(1) by simp
  obtain r2 w2 where rd0: "readDocs os paths [] ?w1 = (r2, w2)"
    by (cases "readDocs os paths [] ?w1")
  have "r2 = Inr docs"
    using readDocs_result [of ?w1 ?w0 os paths "[]"] rd0 assms(3) by (simp add: called_def)
  with rd0 have rd: "readDocs os paths [] ?w1 = (Inr docs, w2)"
    by simp
  have w2: "files w2 = fs" "errOut w2 = []"
    using readDocs_world [of os paths "[]" ?w1] rd by (simp_all add: called_def)
  obtain r3 w3 where rl0: "readLicense os licenseFile w2 = (r3, w3)"
    by (cases "readLicense os licenseFile w2")
  have "r3 = Inr license"
    using readLicense_result [of w2 ?w0 os licenseFile] rl0 assms(4) flags w2 by simp
  with rl0 have rl: "readLicense os licenseFile w2 = (Inr license, w3)"
    by simp
  have w3: "files w3 = fs" "errOut w3 = []"
    using readLicense_world [of os licenseFile w2] rl w2 by simp_all
  have m: "main os args fs =
      writeDocs os (args ! 2) ([license, generatedHeader (args ! 2)] @ map String docs) w3"
    unfolding main_def Let_def flags
    by (simp only: prod.case sum.case n3 if_False a2 rd rl)
  have st: "\<not> os_Stat os (files w3) (args ! 2)"
    using assms(5) w3 by simp
  note wd = writeDocs_missing [OF st assms(6) assms(7), unfolded w3]
  show ?thesis
  proof (cases "os_WriteFile os (os_Mkdir os fs (args ! 2)) path content")
    case (Inl err)
    show ?thesis
      unfolding m wd Inl by simp
  next
    case (Inr fs')
    show ?thesis
      unfolding m wd Inr using w3 by simp
  qed
qed


theorem missing_destination_mkdir_then_write_witness:
  "fst (main tinyOs [''mdtogo'', ''docs'', ''out''] \<lparr>dirs = [''docs''], regs = []\<rparr>) = 0 \<and>
   files (snd (main tinyOs [''mdtogo'', ''docs'', ''out''] \<lparr>dirs = [''docs''], regs = []\<rparr>)) =
     \<lparr>dirs = [''docs'', ''out''],
      regs = [(''out/docs.go'', defaultLicense @ [nl] @ generatedHeader ''out'')]\<rparr>"
proof -
  let ?args = "[''mdtogo'', ''docs'', ''out'']"
  let ?fs = "\<lparr>dirs = [''docs''], regs = []\<rparr>"
  have flags: "foldl parseFlag (False, []) ?args = (False, [])"
    by (simp add: parseFlag_def HasPrefix_def)
  have 1: "3 \<le> length ?args" by simp
  have 2: "readFiles tinyOs ?fs (fst (foldl parseFlag (False, []) ?args)) (?args ! 1) = Inr []"
    unfolding flags by (simp add: readFiles_def tiny_defs path_defs)
  have 3: "fst (readDocs tinyOs [] [] \<lparr>files = ?fs, calls = [], errOut = []\<rparr>) = Inr []"
    by simp
  have 4: "fst (readLicense tinyOs (snd (foldl parseFlag (False, []) ?args))
               \<lparr>files = ?fs, calls = [], errOut = []\<rparr>) = Inr defaultLicense"
    unfolding flags by (simp add: readLicense_def)
  have 5: "\<not> os_Stat tinyOs ?fs (?args ! 2)"
    by (simp add: tiny_defs)
  have w: "os_WriteFile tinyOs (os_Mkdir tinyOs ?fs (?args ! 2)) (filepath_Join [?args ! 2, ''docs.go''])
      (Join ([defaultLicense, generatedHeader (?args ! 2)] @ map String []) [nl]) =
      Inr \<lparr>dirs = [''docs'', ''out''],
           regs = [(''out/docs.go'', defaultLicense @ [nl] @ generatedHeader ''out'')]\<rparr>"
    by (simp add: tiny_defs path_defs)
  show ?thesis
    using missing_destination_mkdir_then_write [OF 1 2 3 4 5 refl refl] unfolding w by simp
qed
text \<open>
  C9 as stated fails when the directory cannot be made. \<open>os.Mkdir\<close> makes one directory;
  where the parent \<open>out\<close> of the destination \<open>out/gen\<close> does not exist it fails, the program
  drops its error, the write fails in turn and the exit code is 1.
\<close>

theorem missing_parent_fails_run:
  "\<not> os_Stat tinyOs \<lparr>dirs = [''docs''], regs = []\<rparr> ''out/gen'' \<and>
   main tinyOs [''mdtogo'', ''docs'', ''out/gen''] \<lparr>dirs = [''docs''], regs = []\<rparr> =
     (1, \<lparr>files = \<lparr>dirs = [''docs''], regs = []\<rparr>,
           calls = [CallReadDir ''docs'', CallStat ''out/gen'', CallMkdir ''out/gen'',
                    CallWriteFile ''out/gen/docs.go''
                      (defaultLicense @ [nl] @ generatedHeader ''out/gen'')],
           errOut = ''open out/gen/docs.go: no such file or directory'' @ [nl]\<rparr>)"
  by (simp add: main_defs tiny_defs path_defs HasPrefix_def ReplaceAll.simps)

subsection \<open>C10\<close>



end
